theory Spec2Isabelle
  imports Main "HOL-Library.Word"
begin

section \<open>Knowledge graph engine (ipproject.c): a shallow embedding\<close>

text \<open>
  C strings are modelled by their contents: the list of bytes before the terminating NUL.
  The program never calls \<^verbatim>\<open>setlocale\<close>, so \<^verbatim>\<open>isspace\<close> and \<^verbatim>\<open>tolower\<close> are those of
  the "C" locale. \<^verbatim>\<open>unsigned long\<close> is taken to be 64 bits wide (LP64).
  Allocation is assumed to succeed (on failure the program prints a message and exits).
\<close>

subsection \<open>Configuration constants\<close>

definition HASH_SIZE :: nat where "HASH_SIZE = 101"
definition NAME_LEN :: nat where "NAME_LEN = 128"
definition REL_LEN :: nat where "REL_LEN = 128"
definition LINE_BUF :: nat where "LINE_BUF = 512"
definition SUGGEST_MAX :: nat where "SUGGEST_MAX = 16"
definition QUEUE_INIT :: nat where "QUEUE_INIT = 128"

text \<open>The fixed size of the array \<^verbatim>\<open>stack\<close> in \<^verbatim>\<open>find_path_bfs\<close>.\<close>

definition PATH_STACK :: nat where "PATH_STACK = 1024"

subsection \<open>Data structures\<close>

text \<open>
  An entity's address is its position in the list of all entities allocated so far
  (\<open>heap\<close>). The two linked lists of the source are lists here: \<open>relations\<close> is the
  adjacency chain (\<^verbatim>\<open>next\<close>), head first, and bucket \<open>i\<close> of \<open>gHash\<close> is the hash chain
  (\<^verbatim>\<open>hnext\<close>) of the addresses linked into \<^verbatim>\<open>gHash[i]\<close>, head first. The flag
  \<^verbatim>\<open>int visited\<close> only ever holds 0 or 1.
\<close>

record Relation =
  rel :: string
  target :: nat

record Entity =
  name :: string
  relations :: "Relation list"
  visited :: bool
  prev :: "nat option"

record graph =
  heap :: "Entity list"
  gHash :: "nat \<Rightarrow> nat list"

definition empty_graph :: graph where
  "empty_graph = \<lparr>heap = [], gHash = (\<lambda>i. [])\<rparr>"

subsection \<open>String helpers\<close>

definition isspace :: "char \<Rightarrow> bool" where
  "isspace c \<longleftrightarrow> c = CHR '' '' \<or> (9 \<le> (of_char c :: nat) \<and> (of_char c :: nat) \<le> 13)"

definition tolower :: "char \<Rightarrow> char" where
  "tolower c =
     (if 65 \<le> (of_char c :: nat) \<and> (of_char c :: nat) \<le> 90
      then char_of ((of_char c :: nat) + 32) else c)"

text \<open>The second loop of \<^verbatim>\<open>trim\<close>: \<^verbatim>\<open>while (end > start && isspace(s[end])) end--\<close>.\<close>

function trim_end :: "string \<Rightarrow> nat \<Rightarrow> nat \<Rightarrow> nat" where
  "trim_end s start e = (if e > start \<and> isspace (s ! e) then trim_end s start (e - 1) else e)"
  by pat_completeness auto
termination
  by (relation "measure (\<lambda>(s, start, e). e)") auto

declare trim_end.simps [simp del]

text \<open>
  \<^verbatim>\<open>trim\<close>: \<open>start\<close> stops at the first byte that is not white space (or at the
  terminator). The length \<^verbatim>\<open>end - start + 1\<close> is computed in \<^verbatim>\<open>size_t\<close>; \<open>start\<close> never
  exceeds \<open>end + 1\<close>, so it is \<open>end + 1 - start\<close>, which is 0 for a string of white space
  only. The terminator is written at that index.
\<close>

definition trim :: "string \<Rightarrow> string" where
  "trim s =
     (let len = length s;
          start = length (takeWhile isspace s);
          e = trim_end s start (if len \<noteq> 0 then len - 1 else 0)
      in take (e + 1 - start) (drop start s))"

fun squeeze_go :: "bool \<Rightarrow> string \<Rightarrow> string" where
  "squeeze_go in_space [] = []"
| "squeeze_go in_space (c # s) =
     (if isspace c
      then (if \<not> in_space then CHR '' '' # squeeze_go True s else squeeze_go True s)
      else c # squeeze_go False s)"

definition squeeze_spaces :: "string \<Rightarrow> string" where
  "squeeze_spaces s = squeeze_go False s"

definition to_lower_copy :: "string \<Rightarrow> nat \<Rightarrow> string" where
  "to_lower_copy src dstsz = map tolower (take (dstsz - 1) src)"

text \<open>
  \<^verbatim>\<open>ci_cmp\<close> returns the difference of the first pair of bytes that differ after
  lowering; when one string ends, the terminator (0) is compared with the other byte.
\<close>

fun ci_cmp :: "string \<Rightarrow> string \<Rightarrow> int" where
  "ci_cmp (a # as) (b # bs) =
     (let ca = int (of_char (tolower a)); cb = int (of_char (tolower b))
      in if ca \<noteq> cb then ca - cb else ci_cmp as bs)"
| "ci_cmp [] [] = 0"
| "ci_cmp (a # as) [] = int (of_char a) - 0"
| "ci_cmp [] (b # bs) = 0 - int (of_char b)"

text \<open>\<^verbatim>\<open>strstr\<close> of the C library: the offset of the first occurrence, if any.\<close>

fun strstr :: "string \<Rightarrow> string \<Rightarrow> nat option" where
  "strstr [] n = (if n = [] then Some 0 else None)"
| "strstr (h # hs) n =
     (if take (length n) (h # hs) = n then Some 0 else map_option Suc (strstr hs n))"

definition ci_contains :: "string \<Rightarrow> string \<Rightarrow> bool" where
  "ci_contains hay needle =
     (strstr (to_lower_copy hay (NAME_LEN * 2)) (to_lower_copy needle NAME_LEN) \<noteq> None)"

subsection \<open>Hash table operations\<close>

text \<open>djb2 on a 64-bit \<^verbatim>\<open>unsigned long\<close>, reduced modulo the bucket count.\<close>

definition hash_index :: "string \<Rightarrow> nat" where
  "hash_index s =
     unat (fold (\<lambda>c h. (push_bit 5 h + h) + of_char c) s (5381 :: 64 word) mod 101)"

text \<open>\<^verbatim>\<open>strcmp(e->name, name) == 0\<close> is equality of the contents.\<close>

definition find_entity_exact :: "graph \<Rightarrow> string \<Rightarrow> nat option" where
  "find_entity_exact g nm =
     find (\<lambda>p. name (heap g ! p) = nm) (gHash g (hash_index nm))"

definition create_entity :: "graph \<Rightarrow> string \<Rightarrow> nat \<times> graph" where
  "create_entity g nm =
     (let e = \<lparr>name = take (NAME_LEN - 1) nm, relations = [], visited = False, prev = None\<rparr>;
          p = length (heap g);
          idx = hash_index (name e)
      in (p, g\<lparr>heap := heap g @ [e], gHash := (gHash g)(idx := p # gHash g idx)\<rparr>))"

definition get_or_create_entity :: "graph \<Rightarrow> string \<Rightarrow> nat \<times> graph" where
  "get_or_create_entity g nm =
     (case find_entity_exact g nm of
        Some p \<Rightarrow> (p, g)
      | None \<Rightarrow> create_entity g nm)"

subsection \<open>Graph operations\<close>

definition add_relationship :: "graph \<Rightarrow> string \<Rightarrow> string \<Rightarrow> string \<Rightarrow> graph" where
  "add_relationship g src rl tgt =
     (case get_or_create_entity g src of (S, g1) \<Rightarrow>
      case get_or_create_entity g1 tgt of (T, g2) \<Rightarrow>
        let R = \<lparr>rel = take (REL_LEN - 1) rl, target = T\<rparr>
        in g2\<lparr>heap := (heap g2)[S := (heap g2 ! S)\<lparr>relations := R # relations (heap g2 ! S)\<rparr>]\<rparr>)"

text \<open>
  The order in which the nested loops \<^verbatim>\<open>for i < HASH_SIZE\<close>, \<^verbatim>\<open>for e = gHash[i]; e; e = e->hnext\<close>
  visit the entities.
\<close>

definition all_entities :: "graph \<Rightarrow> nat list" where
  "all_entities g = concat (map (gHash g) [0..<HASH_SIZE])"

subsection \<open>Console input\<close>

text \<open>
  The console: the bytes of standard input not read yet, and the "Did you mean" menus
  printed so far (each menu is the list of the candidate names it shows).
\<close>

record console =
  pending :: string
  shown :: "string list list"

text \<open>
  \<^verbatim>\<open>fgets(buf, n, f)\<close> of the C library: at most \<open>n - 1\<close> bytes, up to and including
  the first newline; \<^verbatim>\<open>NULL\<close> when the stream is at its end.
\<close>

fun fgets_chunk :: "nat \<Rightarrow> string \<Rightarrow> string \<times> string" where
  "fgets_chunk 0 s = ([], s)"
| "fgets_chunk (Suc k) [] = ([], [])"
| "fgets_chunk (Suc k) (c # s) =
     (if c = CHR 0x0A then ([c], s)
      else (case fgets_chunk k s of (a, r) \<Rightarrow> (c # a, r)))"

definition fgets :: "nat \<Rightarrow> string \<Rightarrow> string option \<times> string" where
  "fgets n s =
     (if s = [] then (None, [])
      else (case fgets_chunk (n - 1) s of (a, r) \<Rightarrow> (Some a, r)))"

text \<open>
  \<^verbatim>\<open>buf[strcspn(buf, "\r\n")] = 0\<close>: the string in the buffer ends at the first
  carriage return or newline (or at a NUL byte that was read).
\<close>

definition strip_eol :: "string \<Rightarrow> string" where
  "strip_eol buf = takeWhile (\<lambda>c. c \<noteq> CHR 0x0D \<and> c \<noteq> CHR 0x0A \<and> c \<noteq> CHR 0x00) buf"

definition read_line :: "nat \<Rightarrow> console \<Rightarrow> string \<times> console" where
  "read_line n con =
     (case fgets n (pending con) of
        (None, r) \<Rightarrow> ([], con\<lparr>pending := r\<rparr>)
      | (Some buf, r) \<Rightarrow> (strip_eol buf, con\<lparr>pending := r\<rparr>))"

text \<open>
  Undefined behaviour of the C program is a fault of the model: a write past the end of
  the BFS queue or of the path stack, a dereference of a pointer that is not an
  allocated entity, and \<^verbatim>\<open>atoi\<close> of a number that does not fit an \<^verbatim>\<open>int\<close>.
\<close>

datatype fault = QueueOverflow | PathStackOverflow | WildPointer | AtoiRange

definition isdigit :: "char \<Rightarrow> bool" where
  "isdigit c \<longleftrightarrow> 48 \<le> (of_char c :: nat) \<and> (of_char c :: nat) \<le> 57"

text \<open>
  \<^verbatim>\<open>atoi\<close> of the C library: leading white space, an optional sign, decimal digits.
  \<open>None\<close> when the value is not representable in a 32-bit \<^verbatim>\<open>int\<close>.
\<close>

definition atoi :: "string \<Rightarrow> int option" where
  "atoi s =
     (let t = dropWhile isspace s;
          neg = (t \<noteq> [] \<and> hd t = CHR ''-'');
          u = (if t \<noteq> [] \<and> (hd t = CHR ''-'' \<or> hd t = CHR ''+'') then tl t else t);
          v = fold (\<lambda>c a. 10 * a + (int (of_char c) - 48)) (takeWhile isdigit u) 0;
          w = (if neg then - v else v)
      in if - (2 ^ 31) \<le> w \<and> w \<le> 2 ^ 31 - 1 then Some w else None)"

subsection \<open>Fuzzy search\<close>

text \<open>
  The array \<^verbatim>\<open>list\<close> and its \<^verbatim>\<open>count\<close> are one list of entity addresses. The result is
  the chosen entity (\<open>None\<close> for \<^verbatim>\<open>NULL\<close>) and the console afterwards.
\<close>

definition fuzzy_pick_from_suggestions ::
  "graph \<Rightarrow> nat list \<Rightarrow> console \<Rightarrow> fault + (nat option \<times> console)" where
  "fuzzy_pick_from_suggestions g list con =
     (let count = int (length list) in
      if count \<le> 0 then Inr (None, con)
      else if count = 1 then Inr (Some (list ! 0), con)
      else
        (let con1 = con\<lparr>shown := shown con @ [map (\<lambda>p. name (heap g ! p)) list]\<rparr>
         in case read_line 32 con1 of (buf, con2) \<Rightarrow>
            (case atoi buf of
               None \<Rightarrow> Inl AtoiRange
             | Some choice \<Rightarrow>
                 if choice \<ge> 1 \<and> choice \<le> count
                 then Inr (Some (list ! nat (choice - 1)), con2)
                 else Inr (None, con2))))"

text \<open>
  The two collecting loops of \<^verbatim>\<open>search_entity_smart\<close>: entities are visited in table
  order while \<^verbatim>\<open>sc < SUGGEST_MAX\<close>, and a match is stored at \<^verbatim>\<open>sugg[sc++]\<close>.
\<close>

fun collect :: "(nat \<Rightarrow> bool) \<Rightarrow> nat list \<Rightarrow> nat list \<Rightarrow> nat list" where
  "collect P [] sugg = sugg"
| "collect P (e # es) sugg =
     (if length sugg < SUGGEST_MAX
      then collect P es (if P e then sugg @ [e] else sugg)
      else sugg)"

text \<open>
  \<^verbatim>\<open>strncmp(lowE, lowK, strlen(lowK)) == 0\<close>: the first \<open>length lowK\<close> bytes of \<open>lowE\<close>
  are \<open>lowK\<close>.
\<close>

definition prefix_match :: "graph \<Rightarrow> string \<Rightarrow> nat \<Rightarrow> bool" where
  "prefix_match g key p =
     (let lowE = to_lower_copy (name (heap g ! p)) NAME_LEN;
          lowK = to_lower_copy key NAME_LEN
      in take (length lowK) lowE = lowK)"

definition normalize_key :: "string \<Rightarrow> string" where
  "normalize_key user_input = squeeze_spaces (trim (take (NAME_LEN - 1) user_input))"

definition search_entity_smart ::
  "graph \<Rightarrow> string \<Rightarrow> console \<Rightarrow> fault + (nat option \<times> console)" where
  "search_entity_smart g user_input con =
     (let key = normalize_key user_input in
      if key = [] then Inr (None, con)
      else
        (case find (\<lambda>p. ci_cmp (name (heap g ! p)) key = 0) (all_entities g) of
           Some e \<Rightarrow> Inr (Some e, con)
         | None \<Rightarrow>
             (let sugg = collect (prefix_match g key) (all_entities g) [];
                  sugg' = (if length sugg = 0
                           then collect (\<lambda>p. ci_contains (name (heap g ! p)) key)
                                  (all_entities g) sugg
                           else sugg)
              in fuzzy_pick_from_suggestions g sugg' con)))"

subsection \<open>BFS path finding\<close>

definition reset_bfs_marks :: "graph \<Rightarrow> graph" where
  "reset_bfs_marks g =
     g\<lparr>heap := fold (\<lambda>p es. es[p := (es ! p)\<lparr>visited := False, prev := None\<rparr>])
                 (all_entities g) (heap g)\<rparr>"

text \<open>
  The \<^verbatim>\<open>for\<close> loop over the relations of \<open>cur\<close>, with the queue's capacity \<open>cap\<close>. The
  queue \<open>Q\<close> holds the \<open>tail\<close> addresses written so far (\<open>tail = length Q\<close>); \<^verbatim>\<open>Q[tail++] = n\<close>
  with \<open>tail \<ge> cap\<close> writes past the allocated array.
\<close>

fun scan_relations ::
  "nat \<Rightarrow> nat \<Rightarrow> Relation list \<Rightarrow> Entity list \<Rightarrow> nat list \<Rightarrow> fault + (Entity list \<times> nat list)" where
  "scan_relations cap cur [] es Q = Inr (es, Q)"
| "scan_relations cap cur (r # rs) es Q =
     (let n = target r in
      if n \<ge> length es then Inl WildPointer
      else if \<not> visited (es ! n) then
        (if length Q \<ge> cap then Inl QueueOverflow
         else scan_relations cap cur rs
                (es[n := (es ! n)\<lparr>visited := True, prev := Some cur\<rparr>]) (Q @ [n]))
      else scan_relations cap cur rs es Q)"

text \<open>The number of entities not marked visited, for the termination of the search.\<close>

definition unvisited :: "Entity list \<Rightarrow> nat" where
  "unvisited es = length (filter (\<lambda>e. \<not> visited e) es)"

lemma unvisited_mark:
  assumes "n < length es" "\<not> visited (es ! n)" "visited e"
  shows "Suc (unvisited (es[n := e])) = unvisited es"
proof -
  have es: "es = take n es @ es ! n # drop (Suc n) es"
    using assms(1) by (simp add: id_take_nth_drop)
  have upd: "es[n := e] = take n es @ e # drop (Suc n) es"
    using assms(1) by (simp add: upd_conv_take_nth_drop)
  have "unvisited es = unvisited (take n es @ es ! n # drop (Suc n) es)"
    using es by simp
  then show ?thesis
    using assms(2,3) unfolding upd unvisited_def by simp
qed

lemma scan_relations_measure:
  "scan_relations cap cur rs es Q = Inr (es', Q') \<Longrightarrow>
     unvisited es' + length Q' = unvisited es + length Q \<and> length Q \<le> length Q'"
proof (induction rs arbitrary: es Q)
  case Nil
  then show ?case by simp
next
  case (Cons r rs)
  show ?case
  proof (cases "target r \<ge> length es")
    case True
    with Cons.prems show ?thesis by simp
  next
    case False
    note inb = this
    show ?thesis
    proof (cases "visited (es ! target r)")
      case True
      with inb Cons.prems have "scan_relations cap cur rs es Q = Inr (es', Q')" by simp
      from Cons.IH[OF this] show ?thesis .
    next
      case False
      with inb Cons.prems have nov: "\<not> length Q \<ge> cap"
        by (auto simp: Let_def split: if_splits)
      let ?es = "es[target r := (es ! target r)\<lparr>visited := True, prev := Some cur\<rparr>]"
      from False inb nov Cons.prems
      have "scan_relations cap cur rs ?es (Q @ [target r]) = Inr (es', Q')"
        by (simp add: Let_def)
      from Cons.IH[OF this]
      have "unvisited es' + length Q' = unvisited ?es + length (Q @ [target r])"
        and "length (Q @ [target r]) \<le> length Q'" by auto
      moreover have "Suc (unvisited ?es) = unvisited es"
        using inb False by (intro unvisited_mark) auto
      ultimately show ?thesis by auto
    qed
  qed
qed

text \<open>
  The \<^verbatim>\<open>while (head < tail)\<close> loop. The capacity is doubled only here, once per
  dequeued entity. The result is \<^verbatim>\<open>found\<close> and the entities with their marks.
\<close>

function bfs_loop ::
  "nat \<Rightarrow> Entity list \<Rightarrow> nat list \<Rightarrow> nat \<Rightarrow> nat \<Rightarrow> fault + (bool \<times> Entity list)" where
  "bfs_loop tgt es Q head cap =
     (if head < length Q then
        (let cap' = (if length Q \<ge> cap then cap * 2 else cap);
             cur = Q ! head
         in if cur = tgt then Inr (True, es)
            else (case scan_relations cap' cur (relations (es ! cur)) es Q of
                    Inl f \<Rightarrow> Inl f
                  | Inr (es', Q') \<Rightarrow> bfs_loop tgt es' Q' (head + 1) cap'))
      else Inr (False, es))"
  by pat_completeness auto
termination
proof (relation "measure (\<lambda>(tgt, es, Q, h, cap). unvisited es + length Q - h)", goal_cases)
  case 1
  then show ?case by simp
next
  case (2 tgt es Q h cap cap' cur x2 es' Q')
  from 2(5,6) have "scan_relations cap' cur (relations (es ! cur)) es Q = Inr (es', Q')"
    by simp
  from scan_relations_measure[OF this] 2(1) show ?case by simp
qed

declare bfs_loop.simps [simp del]

text \<open>
  Path reconstruction: \<^verbatim>\<open>for (p = tgt; p; p = p->prev) stack[top++] = p\<close>, with the
  number of free slots of \<^verbatim>\<open>stack\<close>.
\<close>

fun walk_prev :: "Entity list \<Rightarrow> nat \<Rightarrow> nat option \<Rightarrow> nat list \<Rightarrow> fault + nat list" where
  "walk_prev es slots None stack = Inr stack"
| "walk_prev es 0 (Some p) stack = Inl PathStackOverflow"
| "walk_prev es (Suc k) (Some p) stack = walk_prev es k (prev (es ! p)) (stack @ [p])"

datatype path_result =
    SourceNotFound
  | TargetNotFound
  | PathNotFound string string
  | PathFound "string list"

definition resolve :: "graph \<Rightarrow> string \<Rightarrow> bool \<Rightarrow> console \<Rightarrow> fault + (nat option \<times> console)" where
  "resolve g inp fuzzy con =
     (if fuzzy then search_entity_smart g inp con else Inr (find_entity_exact g inp, con))"

text \<open>
  \<^verbatim>\<open>find_path_bfs\<close> returns what it prints (the failure, or the names of the path from
  source to target), the graph with the marks the search left, and the console.
\<close>

definition find_path_bfs ::
  "graph \<Rightarrow> string \<Rightarrow> string \<Rightarrow> bool \<Rightarrow> console \<Rightarrow> fault + (path_result \<times> graph \<times> console)" where
  "find_path_bfs g src_in tgt_in fuzzy con =
     (case resolve g src_in fuzzy con of
        Inl f \<Rightarrow> Inl f
      | Inr (src, con1) \<Rightarrow>
     (case resolve g tgt_in fuzzy con1 of
        Inl f \<Rightarrow> Inl f
      | Inr (tgt, con2) \<Rightarrow>
     (case src of
        None \<Rightarrow> Inr (SourceNotFound, g, con2)
      | Some s \<Rightarrow>
     (case tgt of
        None \<Rightarrow> Inr (TargetNotFound, g, con2)
      | Some t \<Rightarrow>
         (let g1 = reset_bfs_marks g;
              es1 = (heap g1)[s := (heap g1 ! s)\<lparr>visited := True\<rparr>]
          in case bfs_loop t es1 [s] 0 QUEUE_INIT of
               Inl f \<Rightarrow> Inl f
             | Inr (found, es2) \<Rightarrow>
                 if \<not> found
                 then Inr (PathNotFound (name (es2 ! s)) (name (es2 ! t)), g1\<lparr>heap := es2\<rparr>, con2)
                 else (case walk_prev es2 PATH_STACK (Some t) [] of
                         Inl f \<Rightarrow> Inl f
                       | Inr stack \<Rightarrow>
                           Inr (PathFound (map (\<lambda>p. name (es2 ! p)) (rev stack)),
                                g1\<lparr>heap := es2\<rparr>, con2)))))))"

subsection \<open>File input and output\<close>

text \<open>\<^verbatim>\<open>strchr\<close> of the C library: the offset of the first occurrence of a byte.\<close>

definition strchr :: "string \<Rightarrow> char \<Rightarrow> nat option" where
  "strchr s c = (if c \<in> set s then Some (length (takeWhile (\<lambda>x. x \<noteq> c) s)) else None)"

text \<open>
  \<^verbatim>\<open>parse_relation_line\<close>: \<open>None\<close> for the result 0, otherwise the three buffers
  \<^verbatim>\<open>src\<close>, \<^verbatim>\<open>rel\<close>, \<^verbatim>\<open>tgt\<close>. \<open>p1\<close> is the offset of the first bar and \<open>p2\<close> the offset of
  the next one.
\<close>

definition parse_relation_line :: "string \<Rightarrow> (string \<times> string \<times> string) option" where
  "parse_relation_line line =
     (case strchr line CHR ''|'' of
        None \<Rightarrow> None
      | Some p1 \<Rightarrow>
     (case strchr (drop (p1 + 1) line) CHR ''|'' of
        None \<Rightarrow> None
      | Some d \<Rightarrow>
         (let p2 = p1 + 1 + d;
              L1 = p1;
              L2 = p2 - (p1 + 1);
              L3 = length (drop (p2 + 1) line)
          in if L1 = 0 \<or> L2 = 0 \<or> L3 = 0 then None
             else
               (let L1' = (if L1 \<ge> NAME_LEN then NAME_LEN - 1 else L1);
                    L2' = (if L2 \<ge> REL_LEN then REL_LEN - 1 else L2);
                    L3' = (if L3 \<ge> NAME_LEN then NAME_LEN - 1 else L3);
                    src = take L1' line;
                    rl = take L2' (drop (p1 + 1) line);
                    tgt = take L3' (drop (p2 + 1) line)
                in Some (squeeze_spaces (trim src), squeeze_spaces (trim rl),
                         squeeze_spaces (trim tgt))))))"

lemma fgets_chunk_length:
  "length (snd (fgets_chunk k s)) \<le> length s"
  by (induction k s rule: fgets_chunk.induct) (auto split: prod.splits)

lemma fgets_chunk_shorter:
  "s \<noteq> [] \<Longrightarrow> 0 < k \<Longrightarrow> length (snd (fgets_chunk k s)) < length s"
proof (cases k)
  case 0
  assume "0 < k" with 0 show ?thesis by simp
next
  case (Suc j)
  assume "s \<noteq> []"
  then obtain c t where s: "s = c # t" by (cases s) auto
  have "length (snd (fgets_chunk j t)) \<le> length t" by (rule fgets_chunk_length)
  with s Suc show ?thesis by (auto split: prod.splits)
qed

record load_report =
  loaded :: nat
  skipped :: nat

text \<open>
  The \<^verbatim>\<open>while (fgets(line, sizeof(line), fp))\<close> loop of \<^verbatim>\<open>load_from_file\<close> on the bytes
  \<open>fp\<close> of the file not read yet, with the counters \<^verbatim>\<open>count\<close> and \<^verbatim>\<open>bad\<close>.
\<close>

function load_loop :: "graph \<Rightarrow> string \<Rightarrow> nat \<Rightarrow> nat \<Rightarrow> graph \<times> load_report" where
  "load_loop g fp count bad =
     (case fgets LINE_BUF fp of
        (None, r) \<Rightarrow> (g, \<lparr>loaded = count, skipped = bad\<rparr>)
      | (Some buf, r) \<Rightarrow>
          (let line = trim (strip_eol buf) in
           if line = [] then load_loop g r count bad
           else if hd line = CHR ''#'' then load_loop g r count bad
           else (case parse_relation_line line of
                   None \<Rightarrow> load_loop g r count (bad + 1)
                 | Some (src, rl, tgt) \<Rightarrow>
                     load_loop (add_relationship g src rl tgt) r (count + 1) bad)))"
  by pat_completeness auto
termination
proof (relation "measure (\<lambda>(g, fp, count, bad). length fp)", goal_cases)
  case 1
  then show ?case by simp
next
  case (2 g fp count bad x r buf line)
  then show ?case
    using fgets_chunk_shorter[of fp "LINE_BUF - 1"]
    by (auto simp: fgets_def LINE_BUF_def split: if_splits prod.splits)
next
  case (3 g fp count bad x r buf line)
  then show ?case
    using fgets_chunk_shorter[of fp "LINE_BUF - 1"]
    by (auto simp: fgets_def LINE_BUF_def split: if_splits prod.splits)
next
  case (4 g fp count bad x r buf line)
  then show ?case
    using fgets_chunk_shorter[of fp "LINE_BUF - 1"]
    by (auto simp: fgets_def LINE_BUF_def split: if_splits prod.splits)
next
  case (5 g fp count bad x r buf line y src z rl tgt)
  then show ?case
    using fgets_chunk_shorter[of fp "LINE_BUF - 1"]
    by (auto simp: fgets_def LINE_BUF_def split: if_splits prod.splits)
qed

declare load_loop.simps [simp del]

text \<open>
  \<^verbatim>\<open>load_from_file\<close>: the file is the bytes \<^verbatim>\<open>fopen\<close> gives access to, \<open>None\<close> when it
  cannot be opened (then nothing is loaded and no counts are printed).
\<close>

definition load_from_file :: "graph \<Rightarrow> string option \<Rightarrow> graph \<times> load_report option" where
  "load_from_file g file =
     (case file of
        None \<Rightarrow> (g, None)
      | Some fp \<Rightarrow> (case load_loop g fp 0 0 of (g', rep) \<Rightarrow> (g', Some rep)))"

text \<open>\<^verbatim>\<open>save_to_file\<close>: the bytes written to the file.\<close>

definition relation_line :: "graph \<Rightarrow> nat \<Rightarrow> Relation \<Rightarrow> string" where
  "relation_line g p r =
     name (heap g ! p) @ ''|'' @ rel r @ ''|'' @ name (heap g ! target r) @ [CHR 0x0A]"

definition save_to_file :: "graph \<Rightarrow> string" where
  "save_to_file g =
     concat (map (\<lambda>p. concat (map (relation_line g p) (relations (heap g ! p))))
               (all_entities g))"

subsection \<open>The menu's data entry (\<^verbatim>\<open>main\<close>, choices 1 and 2)\<close>

definition menu_add_entity :: "graph \<Rightarrow> console \<Rightarrow> graph \<times> console" where
  "menu_add_entity g con =
     (case read_line LINE_BUF con of (line, con1) \<Rightarrow>
        (let buf = squeeze_spaces (trim line) in
         if buf = [] then (g, con1)
         else (case find_entity_exact g buf of
                 Some e \<Rightarrow> (g, con1)
               | None \<Rightarrow> (snd (create_entity g buf), con1))))"

definition menu_add_relationship :: "graph \<Rightarrow> console \<Rightarrow> graph \<times> console" where
  "menu_add_relationship g con =
     (case read_line NAME_LEN con of (s0, con1) \<Rightarrow>
      case read_line REL_LEN con1 of (r0, con2) \<Rightarrow>
      case read_line NAME_LEN con2 of (t0, con3) \<Rightarrow>
        (let s = squeeze_spaces (trim s0);
             r = squeeze_spaces (trim r0);
             t = squeeze_spaces (trim t0)
         in if s = [] \<or> r = [] \<or> t = [] then (g, con3)
            else (add_relationship g s r t, con3)))"

section \<open>Properties\<close>

subsection \<open>Example data\<close>

text \<open>
  The graph of the specification's example: Alice knows Bob, Bob knows Carol, Alice met
  Carol, entered in this order.
\<close>

definition example_graph :: graph where
  "example_graph =
     add_relationship
       (add_relationship
          (add_relationship empty_graph ''Alice'' ''knows'' ''Bob'')
          ''Bob'' ''knows'' ''Carol'')
       ''Alice'' ''met'' ''Carol''"

lemma hash_Alice: "hash_index ''Alice'' = 53" by (simp add: hash_index_def)
lemma hash_Bob: "hash_index ''Bob'' = 60" by (simp add: hash_index_def)
lemma hash_Carol: "hash_index ''Carol'' = 21" by (simp add: hash_index_def)

lemma example_graph_eq:
  "example_graph =
     \<lparr>heap =
        [\<lparr>name = ''Alice'',
          relations = [\<lparr>rel = ''met'', target = 2\<rparr>, \<lparr>rel = ''knows'', target = 1\<rparr>],
          visited = False, prev = None\<rparr>,
         \<lparr>name = ''Bob'', relations = [\<lparr>rel = ''knows'', target = 2\<rparr>],
          visited = False, prev = None\<rparr>,
         \<lparr>name = ''Carol'', relations = [], visited = False, prev = None\<rparr>],
      gHash = (\<lambda>i. [])(53 := [0], 60 := [1], 21 := [2])\<rparr>"
  by (simp add: example_graph_def add_relationship_def get_or_create_entity_def
      find_entity_exact_def create_entity_def empty_graph_def Let_def NAME_LEN_def REL_LEN_def
      hash_Alice hash_Bob hash_Carol numeral_2_eq_2)

declare example_graph_eq [code]

text \<open>A console with nothing to read, and a console on which one line was typed.\<close>

definition quiet :: console where
  "quiet = \<lparr>pending = [], shown = []\<rparr>"

definition con_pick :: "string \<Rightarrow> console" where
  "con_pick answer = \<lparr>pending = answer @ [CHR 0x0A], shown = []\<rparr>"

subsection \<open>The entity index\<close>

lemma hash_index_less: "hash_index s < HASH_SIZE"
  unfolding hash_index_def HASH_SIZE_def by (simp add: unat_mod_distrib)


lemma concat_upd_set:
  "idx < n \<Longrightarrow>
     set (concat (map (f(idx := x # f idx)) [0..<n])) = insert x (set (concat (map f [0..<n])))"
  by (auto split: if_splits)


lemma all_entities_create_set:
  "set (all_entities (snd (create_entity g nm))) = insert (length (heap g)) (set (all_entities g))"
  unfolding all_entities_def create_entity_def Let_def
  using concat_upd_set[OF hash_index_less, of "gHash g"] by simp




text \<open>
  The claim as stated, for every name string, fails at a name of 128 bytes: the entity
  is stored under the first 127 bytes, the lookup compares the whole name, and the second
  call creates a second entity.
\<close>

definition long_name :: string where
  "long_name = replicate 128 CHR ''a''"




subsection \<open>Trimming and squeezing\<close>

lemma trim_end_spec:
  "start \<le> e \<Longrightarrow> e < length s \<Longrightarrow> \<not> isspace (s ! start) \<Longrightarrow>
     take (trim_end s start e + 1 - start) (drop start s)
       = rev (dropWhile isspace (rev (take (e + 1 - start) (drop start s))))"
proof (induction s start e rule: trim_end.induct)
  case (1 s start e)
  show ?case
  proof (cases "e > start \<and> isspace (s ! e)")
    case True
    then have te: "trim_end s start e = trim_end s start (e - 1)"
      by (subst trim_end.simps) simp
    have ih: "take (trim_end s start (e - 1) + 1 - start) (drop start s)
       = rev (dropWhile isspace (rev (take (e - 1 + 1 - start) (drop start s))))"
      using 1 True by (intro "1.IH") auto
    have "take (e + 1 - start) (drop start s) = take (e - start) (drop start s) @ [s ! e]"
    proof -
      have "e + 1 - start = Suc (e - start)" using True by auto
      moreover have "e - start < length (drop start s)" using "1.prems" True by auto
      moreover have "drop start s ! (e - start) = s ! e" using "1.prems" True by simp
      ultimately show ?thesis by (simp add: take_Suc_conv_app_nth)
    qed
    then have "rev (dropWhile isspace (rev (take (e + 1 - start) (drop start s))))
        = rev (dropWhile isspace (rev (take (e - start) (drop start s))))"
      using True by simp
    moreover have "e - 1 + 1 - start = e - start" using True by simp
    ultimately show ?thesis using ih te by simp
  next
    case False
    then have te: "trim_end s start e = e"
      by (subst trim_end.simps) auto
    have ns: "\<not> isspace (s ! e)"
      using False 1(2,4) by (cases "e = start") auto
    have "take (e + 1 - start) (drop start s) = take (e - start) (drop start s) @ [s ! e]"
    proof -
      have "e + 1 - start = Suc (e - start)" using "1.prems" by auto
      moreover have "e - start < length (drop start s)" using "1.prems" by auto
      moreover have "drop start s ! (e - start) = s ! e" using "1.prems" by simp
      ultimately show ?thesis by (simp add: take_Suc_conv_app_nth)
    qed
    then show ?thesis using te ns by simp
  qed
qed

lemma trim_eq: "trim s = rev (dropWhile isspace (rev (dropWhile isspace s)))"
proof (cases "dropWhile isspace s = []")
  case True
  then have "takeWhile isspace s = s"
    by (metis append_Nil2 takeWhile_dropWhile_id)
  then have st: "length (takeWhile isspace s) = length s" by metis
  have te: "trim_end s (length s) (if length s \<noteq> 0 then length s - 1 else 0)
          = (if length s \<noteq> 0 then length s - 1 else 0)"
    by (subst trim_end.simps) auto
  have "trim s = []"
    unfolding trim_def Let_def st te by simp
  then show ?thesis unfolding True by simp
next
  case False
  let ?start = "length (takeWhile isspace s)"
  have d: "drop ?start s = dropWhile isspace s"
    by (metis append_eq_conv_conj takeWhile_dropWhile_id)
  have lt: "?start < length s"
    using False by (metis d drop_eq_Nil not_le_imp_less)
  have hdns: "\<not> isspace (s ! ?start)"
    using False by (metis d hd_drop_conv_nth hd_dropWhile lt)
  have ne: "length s \<noteq> 0" using lt by auto
  have "take (trim_end s ?start (length s - 1) + 1 - ?start) (drop ?start s)
       = rev (dropWhile isspace (rev (take (length s - 1 + 1 - ?start) (drop ?start s))))"
    using lt hdns by (intro trim_end_spec) auto
  moreover have "take (length s - 1 + 1 - ?start) (drop ?start s) = drop ?start s"
    using lt by simp
  ultimately show ?thesis using ne d by (simp add: trim_def Let_def)
qed

lemma trim_Nil_iff: "trim s = [] \<longleftrightarrow> (\<forall>c \<in> set s. isspace c)"
proof
  assume "trim s = []"
  then have "dropWhile isspace (rev (dropWhile isspace s)) = []"
    by (simp add: trim_eq)
  then have "\<forall>c \<in> set (rev (dropWhile isspace s)). isspace c"
    by (simp only: dropWhile_eq_Nil_conv)
  then have a: "\<forall>c \<in> set (dropWhile isspace s). isspace c" by (simp only: set_rev)
  have "dropWhile isspace s = []"
  proof (rule ccontr)
    assume ne: "dropWhile isspace s \<noteq> []"
    then have "\<not> isspace (hd (dropWhile isspace s))" by (rule hd_dropWhile)
    moreover have "hd (dropWhile isspace s) \<in> set (dropWhile isspace s)"
      using ne by (rule hd_in_set)
    ultimately show False using a by blast
  qed
  then show "\<forall>c \<in> set s. isspace c" by (simp only: dropWhile_eq_Nil_conv)
next
  assume "\<forall>c \<in> set s. isspace c"
  then have d: "dropWhile isspace s = []" by (simp only: dropWhile_eq_Nil_conv)
  show "trim s = []" unfolding trim_eq d by simp
qed

lemma trim_id:
  assumes "s \<noteq> []" "\<not> isspace (hd s)" "\<not> isspace (last s)"
  shows "trim s = s"
proof -
  have "dropWhile isspace s = s" using assms by (cases s) auto
  moreover have "dropWhile isspace (rev s) = rev s"
    using assms by (cases "rev s") (auto simp: last_rev[symmetric] hd_rev)
  ultimately show ?thesis by (simp add: trim_eq)
qed

lemma trim_hd_last:
  assumes "trim s \<noteq> []"
  shows "\<not> isspace (hd (trim s))" "\<not> isspace (last (trim s))"
proof -
  let ?d = "dropWhile isspace s"
  let ?r = "dropWhile isspace (rev ?d)"
  have t: "trim s = rev ?r" by (simp add: trim_eq)
  have rne: "?r \<noteq> []" using assms t by simp
  then have "\<not> isspace (hd ?r)" by (rule hd_dropWhile)
  then show "\<not> isspace (last (trim s))" using t rne by (simp add: last_rev)
  have dne: "?d \<noteq> []"
  proof
    assume "?d = []"
    then have "?r = []" by (simp only: rev.simps dropWhile.simps)
    with rne show False by simp
  qed
  then have hd: "\<not> isspace (hd ?d)" by (rule hd_dropWhile)
  have "\<exists>ys. rev ?d = ys @ ?r" by (metis takeWhile_dropWhile_id)
  then obtain ys where "rev ?d = ys @ ?r" ..
  then have "?d = rev ?r @ rev ys" by (metis rev_append rev_rev_ident)
  then have "hd ?d = hd (rev ?r)" using rne by (metis hd_append2 rev_is_Nil_conv)
  then show "\<not> isspace (hd (trim s))" using hd t by simp
qed

lemma squeeze_go_Nil_iff: "squeeze_go b s = [] \<longleftrightarrow> (s = [] \<or> (b \<and> (\<forall>c \<in> set s. isspace c)))"
  by (induction b s rule: squeeze_go.induct) auto

lemma squeeze_spaces_Nil_iff: "squeeze_spaces s = [] \<longleftrightarrow> s = []"
  by (simp add: squeeze_spaces_def squeeze_go_Nil_iff)

lemma normalize_blank:
  assumes "squeeze_spaces (trim inp) = []"
  shows "normalize_key inp = []"
proof -
  have "\<forall>c \<in> set inp. isspace c"
    using assms by (simp add: squeeze_spaces_Nil_iff trim_Nil_iff)
  then have "\<forall>c \<in> set (take (NAME_LEN - 1) inp). isspace c"
    by (meson in_set_takeD)
  then show ?thesis
    by (simp add: normalize_key_def squeeze_spaces_Nil_iff trim_Nil_iff)
qed

subsection \<open>Disambiguation\<close>

lemma read_line_shown:
  "fst (read_line n (con\<lparr>shown := x\<rparr>)) = fst (read_line n con)"
  "pending (snd (read_line n (con\<lparr>shown := x\<rparr>))) = pending (snd (read_line n con))"
  "shown (snd (read_line n con)) = shown con"
  by (auto simp: read_line_def split: prod.splits option.splits)

text \<open>The console after the menu for \<open>list\<close> was printed and the answer was read.\<close>

definition prompted :: "graph \<Rightarrow> nat list \<Rightarrow> console \<Rightarrow> console" where
  "prompted g list con =
     snd (read_line 32 (con\<lparr>shown := shown con @ [map (\<lambda>p. name (heap g ! p)) list]\<rparr>))"

lemma fuzzy_pick_many:
  assumes "1 < length list"
  shows "fuzzy_pick_from_suggestions g list con =
     (case atoi (fst (read_line 32 con)) of
        None \<Rightarrow> Inl AtoiRange
      | Some choice \<Rightarrow>
          if choice \<ge> 1 \<and> choice \<le> int (length list)
          then Inr (Some (list ! nat (choice - 1)), prompted g list con)
          else Inr (None, prompted g list con))"
proof -
  let ?con1 = "con\<lparr>shown := shown con @ [map (\<lambda>p. name (heap g ! p)) list]\<rparr>"
  obtain buf con2 where r: "read_line 32 ?con1 = (buf, con2)"
    by (cases "read_line 32 ?con1")
  have b: "buf = fst (read_line 32 con)"
    using r read_line_shown(1)[where n = 32 and con = con] by (metis fst_conv)
  have c: "con2 = prompted g list con"
    using r by (simp add: prompted_def)
  have ne: "list \<noteq> []" "length list \<noteq> Suc 0" using assms by auto
  show ?thesis
    unfolding fuzzy_pick_from_suggestions_def Let_def r
    by (simp add: ne b[symmetric] c[symmetric] split: option.splits)
qed

text \<open>
  The candidates of a tier are the list \<open>list\<close>. With exactly one candidate it is
  returned and the console is untouched: no menu is printed and nothing is read. With no
  candidate nothing is returned, again without a prompt. With more than one candidate the
  menu is printed and one line is read; when the typed number fits an \<^verbatim>\<open>int\<close>, so that
  \<^verbatim>\<open>atoi\<close> of the line is \<open>choice\<close>, a choice from 1 to the number of candidates returns
  the candidate at that place, and a choice of 0 or out of range returns no entity. The
  function only reads the graph (it returns none), so the graph is as it was in every case.
\<close>

lemma fuzzy_pick_contract:
  "(length list = 1 \<longrightarrow> fuzzy_pick_from_suggestions g list con = Inr (Some (list ! 0), con)) \<and>
   (list = [] \<longrightarrow> fuzzy_pick_from_suggestions g list con = Inr (None, con)) \<and>
   (1 < length list \<and> atoi (fst (read_line 32 con)) = Some choice \<longrightarrow>
      (1 \<le> choice \<and> choice \<le> int (length list) \<longrightarrow>
         fuzzy_pick_from_suggestions g list con
           = Inr (Some (list ! nat (choice - 1)), prompted g list con)) \<and>
      (choice < 1 \<or> int (length list) < choice \<longrightarrow>
         fuzzy_pick_from_suggestions g list con = Inr (None, prompted g list con)))"
proof (intro conjI impI)
  assume "length list = 1"
  then show "fuzzy_pick_from_suggestions g list con = Inr (Some (list ! 0), con)"
    by (simp add: fuzzy_pick_from_suggestions_def)
next
  assume "list = []"
  then show "fuzzy_pick_from_suggestions g list con = Inr (None, con)"
    by (simp add: fuzzy_pick_from_suggestions_def)
next
  assume a: "1 < length list \<and> atoi (fst (read_line 32 con)) = Some choice"
    and b: "1 \<le> choice \<and> choice \<le> int (length list)"
  show "fuzzy_pick_from_suggestions g list con
           = Inr (Some (list ! nat (choice - 1)), prompted g list con)"
    using a b by (simp add: fuzzy_pick_many)
next
  assume a: "1 < length list \<and> atoi (fst (read_line 32 con)) = Some choice"
    and b: "choice < 1 \<or> int (length list) < choice"
  show "fuzzy_pick_from_suggestions g list con = Inr (None, prompted g list con)"
    using a b by (auto simp add: fuzzy_pick_many)
qed

lemma fuzzy_pick_contract_example:
  "fuzzy_pick_from_suggestions example_graph [2] (con_pick ''7'') = Inr (Some 2, con_pick ''7'') \<and>
   fuzzy_pick_from_suggestions example_graph [] (con_pick ''1'') = Inr (None, con_pick ''1'') \<and>
   fuzzy_pick_from_suggestions example_graph [2, 1] (con_pick ''2'')
     = Inr (Some 1, prompted example_graph [2, 1] (con_pick ''2'')) \<and>
   fuzzy_pick_from_suggestions example_graph [2, 1] (con_pick ''0'')
     = Inr (None, prompted example_graph [2, 1] (con_pick ''0'')) \<and>
   fuzzy_pick_from_suggestions example_graph [2, 1] (con_pick ''3'')
     = Inr (None, prompted example_graph [2, 1] (con_pick ''3'')) \<and>
   shown (prompted example_graph [2, 1] (con_pick ''2'')) = [[''Carol'', ''Bob'']]"
proof -
  have a2: "atoi (fst (read_line 32 (con_pick ''2''))) = Some 2" by code_simp
  have a0: "atoi (fst (read_line 32 (con_pick ''0''))) = Some 0" by code_simp
  have a3: "atoi (fst (read_line 32 (con_pick ''3''))) = Some 3" by code_simp
  have s: "shown (prompted example_graph [2, 1] (con_pick ''2'')) = [[''Carol'', ''Bob'']]"
    by code_simp
  show ?thesis
    using fuzzy_pick_contract[of "[2]" example_graph "con_pick ''7''" 0]
      fuzzy_pick_contract[of "[]" example_graph "con_pick ''1''" 0]
      fuzzy_pick_contract[of "[2, 1]" example_graph "con_pick ''2''" 2]
      fuzzy_pick_contract[of "[2, 1]" example_graph "con_pick ''0''" 0]
      fuzzy_pick_contract[of "[2, 1]" example_graph "con_pick ''3''" 3]
      a2 a0 a3 s
    by simp
qed

text \<open>
  A typed number that does not fit an \<^verbatim>\<open>int\<close>: the behaviour of \<^verbatim>\<open>atoi\<close> at line 197 is
  undefined, and the range test of line 198 is applied to whatever it returned. The
  function does not return \<^verbatim>\<open>NULL\<close> with its message of cancellation.
\<close>

lemma fuzzy_pick_unrepresentable:
  assumes "1 < length list" and "atoi (fst (read_line 32 con)) = None"
  shows "fuzzy_pick_from_suggestions g list con = Inl AtoiRange"
  using assms by (simp add: fuzzy_pick_many)

lemma atoi_4294967298: "atoi (fst (read_line 32 (con_pick ''4294967298''))) = None"
  by code_simp

text \<open>
  C9. The candidates are Carol and Bob, and the answer to the menu is 4294967298, a
  selection that is not in the range 1..2. By the claim no entity is returned. The number
  is not representable in an \<^verbatim>\<open>int\<close>, so \<^verbatim>\<open>atoi(buf)\<close> has undefined behaviour, and the
  test \<^verbatim>\<open>choice >= 1 && choice <= count\<close> does not see the typed number: the function
  does not take its branch of cancellation. (A C library that computes \<^verbatim>\<open>atoi\<close> as
  \<^verbatim>\<open>(int) strtol(buf, NULL, 10)\<close> returns 4294967298 - 2^32 = 2 here, and the function then
  returns \<^verbatim>\<open>list[1]\<close>, the entity Bob.)
\<close>

theorem fuzzy_pick_overflowing_selection:
  "fuzzy_pick_from_suggestions example_graph [2, 1] (con_pick ''4294967298'') = Inl AtoiRange"
  by (simp add: fuzzy_pick_many atoi_4294967298)

subsection \<open>Fuzzy resolution\<close>

lemma collect_eq:
  "length sugg \<le> SUGGEST_MAX \<Longrightarrow>
     collect P xs sugg = sugg @ take (SUGGEST_MAX - length sugg) (filter P xs)"
proof (induction xs arbitrary: sugg)
  case Nil
  then show ?case by simp
next
  case (Cons x xs)
  show ?case
  proof (cases "length sugg < SUGGEST_MAX")
    case True
    then have "length (if P x then sugg @ [x] else sugg) \<le> SUGGEST_MAX" by simp
    moreover have "SUGGEST_MAX - length sugg = Suc (SUGGEST_MAX - Suc (length sugg))"
      using True by simp
    ultimately show ?thesis using True Cons.IH[of "if P x then sugg @ [x] else sugg"]
      by simp
  next
    case False
    with Cons.prems show ?thesis by simp
  qed
qed

lemma collect_empty: "collect P xs [] = take SUGGEST_MAX (filter P xs)"
  by (simp add: collect_eq)

text \<open>
  C2 (as amended). The key is the normalisation (trim, then squeeze) of the first 127 bytes
  of the input. An input that normalises to the empty string gives no entity and leaves
  the console untouched (no prompt). With a key that is not empty, if some entity of the
  index has a name that \<open>ci_cmp\<close> finds equal to the key, such an entity is returned at once,
  the console untouched. Otherwise the result is the disambiguation of the prefix
  candidates (the first 16 in table order) when there is one at least, whatever the
  substring tier would find, and the disambiguation of the substring candidates only when
  there is no prefix candidate.
\<close>

theorem search_entity_smart_tiers:
  fixes g inp con
  defines "key \<equiv> normalize_key inp"
  shows
  "(squeeze_spaces (trim inp) = [] \<longrightarrow> search_entity_smart g inp con = Inr (None, con)) \<and>
   (key \<noteq> [] \<and> (\<exists>p \<in> set (all_entities g). ci_cmp (name (heap g ! p)) key = 0) \<longrightarrow>
      (\<exists>e \<in> set (all_entities g). ci_cmp (name (heap g ! e)) key = 0 \<and>
          search_entity_smart g inp con = Inr (Some e, con))) \<and>
   (key \<noteq> [] \<and> (\<forall>p \<in> set (all_entities g). ci_cmp (name (heap g ! p)) key \<noteq> 0) \<longrightarrow>
      search_entity_smart g inp con =
        (let pre = take SUGGEST_MAX (filter (prefix_match g key) (all_entities g))
         in if pre \<noteq> [] then fuzzy_pick_from_suggestions g pre con
            else fuzzy_pick_from_suggestions g
                   (take SUGGEST_MAX
                      (filter (\<lambda>p. ci_contains (name (heap g ! p)) key) (all_entities g)))
                   con))"
proof (intro conjI impI)
  assume "squeeze_spaces (trim inp) = []"
  then have "normalize_key inp = []" by (rule normalize_blank)
  then show "search_entity_smart g inp con = Inr (None, con)"
    by (simp add: search_entity_smart_def)
next
  assume a: "key \<noteq> [] \<and> (\<exists>p \<in> set (all_entities g). ci_cmp (name (heap g ! p)) key = 0)"
  then have "find (\<lambda>p. ci_cmp (name (heap g ! p)) key = 0) (all_entities g) \<noteq> None"
    by (auto simp: find_None_iff)
  then obtain e where e: "find (\<lambda>p. ci_cmp (name (heap g ! p)) key = 0) (all_entities g) = Some e"
    by auto
  then have "e \<in> set (all_entities g)" "ci_cmp (name (heap g ! e)) key = 0"
    by (auto simp: find_Some_iff)
  moreover have "search_entity_smart g inp con = Inr (Some e, con)"
    using a e by (simp add: search_entity_smart_def key_def)
  ultimately show "\<exists>e \<in> set (all_entities g). ci_cmp (name (heap g ! e)) key = 0 \<and>
          search_entity_smart g inp con = Inr (Some e, con)" by blast
next
  assume a: "key \<noteq> [] \<and> (\<forall>p \<in> set (all_entities g). ci_cmp (name (heap g ! p)) key \<noteq> 0)"
  then have f: "find (\<lambda>p. ci_cmp (name (heap g ! p)) key = 0) (all_entities g) = None"
    by (auto simp: find_None_iff)
  have k: "normalize_key inp \<noteq> []" using a by (simp add: key_def)
  show "search_entity_smart g inp con =
        (let pre = take SUGGEST_MAX (filter (prefix_match g key) (all_entities g))
         in if pre \<noteq> [] then fuzzy_pick_from_suggestions g pre con
            else fuzzy_pick_from_suggestions g
                   (take SUGGEST_MAX
                      (filter (\<lambda>p. ci_contains (name (heap g ! p)) key) (all_entities g)))
                   con)"
  proof (cases "filter (prefix_match g key) (all_entities g) = []")
    case True
    then show ?thesis
      unfolding search_entity_smart_def Let_def
      using k f by (simp add: key_def[symmetric] collect_empty)
  next
    case False
    then have ne: "take SUGGEST_MAX (filter (prefix_match g key) (all_entities g)) \<noteq> []"
      by (simp add: SUGGEST_MAX_def)
    then have ln: "length (collect (prefix_match g key) (all_entities g) []) \<noteq> 0"
      by (simp only: collect_empty length_0_conv not_False_eq_True)
    show ?thesis
      unfolding search_entity_smart_def Let_def key_def[symmetric]
      using k f ne ln by (simp only: key_def[symmetric] collect_empty if_False if_True option.case simp_thms)
  qed
qed

definition padded_a :: string where
  "padded_a = replicate 127 CHR '' '' @ ''a''"

definition graph_a :: graph where
  "graph_a = snd (create_entity empty_graph ''a'')"

text \<open>
  The claim as stated, with the normalisation of the whole input, fails at an input of
  128 bytes: 127 blanks and then the name of an entity. The input normalises to that
  name, but the key is taken from the first 127 bytes and is empty.
\<close>

theorem search_entity_smart_truncation_counterexample:
  "squeeze_spaces (trim padded_a) = ''a'' \<and>
   all_entities graph_a = [0] \<and>
   ci_cmp (name (heap graph_a ! 0)) (squeeze_spaces (trim padded_a)) = 0 \<and>
   search_entity_smart graph_a padded_a quiet = Inr (None, quiet)"
  by code_simp

theorem search_entity_smart_tiers_witness:
  "search_entity_smart example_graph ''   '' quiet = Inr (None, quiet) \<and>
   (\<exists>e \<in> set (all_entities example_graph).
       ci_cmp (name (heap example_graph ! e)) (normalize_key ''ALICE'') = 0 \<and>
       search_entity_smart example_graph ''ALICE'' quiet = Inr (Some e, quiet)) \<and>
   search_entity_smart example_graph ''OB'' quiet = Inr (Some 1, quiet) \<and>
   search_entity_smart example_graph ''al'' quiet = Inr (Some 0, quiet)"
proof (intro conjI)
  have "squeeze_spaces (trim ''   '') = []" by code_simp
  then show "search_entity_smart example_graph ''   '' quiet = Inr (None, quiet)"
    using search_entity_smart_tiers[of "''   ''" example_graph quiet] by blast
next
  have "normalize_key ''ALICE'' \<noteq> [] \<and>
    (\<exists>p \<in> set (all_entities example_graph).
        ci_cmp (name (heap example_graph ! p)) (normalize_key ''ALICE'') = 0)"
    by code_simp
  then show "\<exists>e \<in> set (all_entities example_graph).
       ci_cmp (name (heap example_graph ! e)) (normalize_key ''ALICE'') = 0 \<and>
       search_entity_smart example_graph ''ALICE'' quiet = Inr (Some e, quiet)"
    using search_entity_smart_tiers[of "''ALICE''" example_graph quiet] by blast
next
  have h: "normalize_key ''OB'' \<noteq> [] \<and>
    (\<forall>p \<in> set (all_entities example_graph).
        ci_cmp (name (heap example_graph ! p)) (normalize_key ''OB'') \<noteq> 0)"
    by code_simp
  have e: "(let pre = take SUGGEST_MAX (filter (prefix_match example_graph (normalize_key ''OB''))
                (all_entities example_graph))
         in if pre \<noteq> [] then fuzzy_pick_from_suggestions example_graph pre quiet
            else fuzzy_pick_from_suggestions example_graph
                   (take SUGGEST_MAX
                      (filter (\<lambda>p. ci_contains (name (heap example_graph ! p)) (normalize_key ''OB''))
                         (all_entities example_graph)))
                   quiet) = Inr (Some 1, quiet)"
    by code_simp
  show "search_entity_smart example_graph ''OB'' quiet = Inr (Some 1, quiet)"
    using search_entity_smart_tiers[of "''OB''" example_graph quiet] h e by presburger
next
  have h: "normalize_key ''al'' \<noteq> [] \<and>
    (\<forall>p \<in> set (all_entities example_graph).
        ci_cmp (name (heap example_graph ! p)) (normalize_key ''al'') \<noteq> 0)"
    by code_simp
  have e: "(let pre = take SUGGEST_MAX (filter (prefix_match example_graph (normalize_key ''al''))
                (all_entities example_graph))
         in if pre \<noteq> [] then fuzzy_pick_from_suggestions example_graph pre quiet
            else fuzzy_pick_from_suggestions example_graph
                   (take SUGGEST_MAX
                      (filter (\<lambda>p. ci_contains (name (heap example_graph ! p)) (normalize_key ''al''))
                         (all_entities example_graph)))
                   quiet) = Inr (Some 0, quiet)"
    by code_simp
  show "search_entity_smart example_graph ''al'' quiet = Inr (Some 0, quiet)"
    using search_entity_smart_tiers[of "''al''" example_graph quiet] h e by presburger
qed

subsection \<open>Failures of the path query\<close>

text \<open>The marks at the start of the traversal: all cleared, then the source visited.\<close>

definition start_marks :: "graph \<Rightarrow> nat \<Rightarrow> Entity list" where
  "start_marks g s =
     (heap (reset_bfs_marks g))[s := (heap (reset_bfs_marks g) ! s)\<lparr>visited := True\<rparr>]"

lemma find_path_bfs_resolved:
  assumes "resolve g src_in fuzzy con = Inr (Some s, con1)"
      and "resolve g tgt_in fuzzy con1 = Inr (Some t, con2)"
  shows "find_path_bfs g src_in tgt_in fuzzy con =
     (case bfs_loop t (start_marks g s) [s] 0 QUEUE_INIT of
        Inl f \<Rightarrow> Inl f
      | Inr (found, es2) \<Rightarrow>
          if \<not> found
          then Inr (PathNotFound (name (es2 ! s)) (name (es2 ! t)),
                    (reset_bfs_marks g)\<lparr>heap := es2\<rparr>, con2)
          else (case walk_prev es2 PATH_STACK (Some t) [] of
                  Inl f \<Rightarrow> Inl f
                | Inr stack \<Rightarrow>
                    Inr (PathFound (map (\<lambda>p. name (es2 ! p)) (rev stack)),
                         (reset_bfs_marks g)\<lparr>heap := es2\<rparr>, con2)))"
  using assms by (simp add: find_path_bfs_def start_marks_def Let_def)

text \<open>
  C8. Let the source input resolve to \<open>src\<close> and then the target input to \<open>tgt\<close> (\<open>None\<close>
  when an input does not resolve). \<open>find_path_bfs\<close> reports \<open>SourceNotFound\<close> when the
  source does not resolve (also when the target does not resolve either: one failure is
  reported, and the source is checked first), \<open>TargetNotFound\<close> when the source resolves
  and the target does not, and \<open>PathNotFound\<close> when both resolve and the loop ends with an
  empty queue, the target not reached. The three reports are distinct values, none carries
  a path, and a path is returned only when both inputs resolve and the loop reaches the
  target.
\<close>

theorem find_path_bfs_failures:
  assumes "resolve g src_in fuzzy con = Inr (src, con1)"
      and "resolve g tgt_in fuzzy con1 = Inr (tgt, con2)"
  shows "(src = None \<longrightarrow>
            find_path_bfs g src_in tgt_in fuzzy con = Inr (SourceNotFound, g, con2)) \<and>
         (src \<noteq> None \<and> tgt = None \<longrightarrow>
            find_path_bfs g src_in tgt_in fuzzy con = Inr (TargetNotFound, g, con2)) \<and>
         (\<forall>s t es. src = Some s \<and> tgt = Some t \<and>
              bfs_loop t (start_marks g s) [s] 0 QUEUE_INIT = Inr (False, es) \<longrightarrow>
            find_path_bfs g src_in tgt_in fuzzy con
              = Inr (PathNotFound (name (es ! s)) (name (es ! t)),
                     (reset_bfs_marks g)\<lparr>heap := es\<rparr>, con2)) \<and>
         (\<forall>p g' c. find_path_bfs g src_in tgt_in fuzzy con = Inr (PathFound p, g', c) \<longrightarrow>
            (\<exists>s t es. src = Some s \<and> tgt = Some t \<and>
               bfs_loop t (start_marks g s) [s] 0 QUEUE_INIT = Inr (True, es)))"
proof (intro conjI allI impI)
  assume "src = None"
  then show "find_path_bfs g src_in tgt_in fuzzy con = Inr (SourceNotFound, g, con2)"
    using assms by (simp add: find_path_bfs_def)
next
  assume "src \<noteq> None \<and> tgt = None"
  then show "find_path_bfs g src_in tgt_in fuzzy con = Inr (TargetNotFound, g, con2)"
    using assms by (auto simp add: find_path_bfs_def)
next
  fix s t es
  assume "src = Some s \<and> tgt = Some t \<and>
              bfs_loop t (start_marks g s) [s] 0 QUEUE_INIT = Inr (False, es)"
  then show "find_path_bfs g src_in tgt_in fuzzy con
              = Inr (PathNotFound (name (es ! s)) (name (es ! t)),
                     (reset_bfs_marks g)\<lparr>heap := es\<rparr>, con2)"
    using assms by (simp add: find_path_bfs_resolved)
next
  fix p g' c
  assume f: "find_path_bfs g src_in tgt_in fuzzy con = Inr (PathFound p, g', c)"
  show "\<exists>s t es. src = Some s \<and> tgt = Some t \<and>
               bfs_loop t (start_marks g s) [s] 0 QUEUE_INIT = Inr (True, es)"
  proof (cases src)
    case None
    with f assms show ?thesis by (simp add: find_path_bfs_def)
  next
    case (Some s)
    note s = this
    show ?thesis
    proof (cases tgt)
      case None
      with f s assms show ?thesis by (simp add: find_path_bfs_def)
    next
      case (Some t)
      with f s assms show ?thesis
        by (auto simp add: find_path_bfs_resolved split: sum.splits prod.splits if_splits)
    qed
  qed
qed

theorem find_path_bfs_failures_witness:
  "find_path_bfs example_graph ''Zed'' ''Alice'' False quiet
     = Inr (SourceNotFound, example_graph, quiet) \<and>
   find_path_bfs example_graph ''Alice'' ''Zed'' False quiet
     = Inr (TargetNotFound, example_graph, quiet) \<and>
   (\<exists>es. find_path_bfs example_graph ''Carol'' ''Alice'' False quiet
     = Inr (PathNotFound ''Carol'' ''Alice'', (reset_bfs_marks example_graph)\<lparr>heap := es\<rparr>, quiet))"
proof (intro conjI)
  have r1: "resolve example_graph ''Zed'' False quiet = Inr (None, quiet)" by code_simp
  have r2: "resolve example_graph ''Alice'' False quiet = Inr (Some 0, quiet)" by code_simp
  have r3: "resolve example_graph ''Carol'' False quiet = Inr (Some 2, quiet)" by code_simp
  show "find_path_bfs example_graph ''Zed'' ''Alice'' False quiet
     = Inr (SourceNotFound, example_graph, quiet)"
    using find_path_bfs_failures[OF r1 r2] by simp
  show "find_path_bfs example_graph ''Alice'' ''Zed'' False quiet
     = Inr (TargetNotFound, example_graph, quiet)"
    using find_path_bfs_failures[OF r2 r1] by simp
  obtain es where b: "bfs_loop 0 (start_marks example_graph 2) [2] 0 QUEUE_INIT = Inr (False, es)"
    and n: "name (es ! 2) = ''Carol''" "name (es ! 0) = ''Alice''"
  proof
    let ?es = "[\<lparr>name = ''Alice'',
          relations = [\<lparr>rel = ''met'', target = 2\<rparr>, \<lparr>rel = ''knows'', target = 1\<rparr>],
          visited = False, prev = None\<rparr>,
         \<lparr>name = ''Bob'', relations = [\<lparr>rel = ''knows'', target = 2\<rparr>],
          visited = False, prev = None\<rparr>,
         \<lparr>name = ''Carol'', relations = [], visited = True, prev = None\<rparr>]"
    show "bfs_loop 0 (start_marks example_graph 2) [2] 0 QUEUE_INIT = Inr (False, ?es)"
      by code_simp
    show "name (?es ! 2) = ''Carol''" "name (?es ! 0) = ''Alice''" by simp_all
  qed
  show "\<exists>es. find_path_bfs example_graph ''Carol'' ''Alice'' False quiet
     = Inr (PathNotFound ''Carol'' ''Alice'', (reset_bfs_marks example_graph)\<lparr>heap := es\<rparr>, quiet)"
    using find_path_bfs_failures[OF r3 r2] b n by auto
qed

subsection \<open>Import\<close>

text \<open>
  The edges of a graph as triples of source name, label and target name, in the order in
  which \<^verbatim>\<open>save_to_file\<close> visits them.
\<close>

definition edge_triples :: "graph \<Rightarrow> (string \<times> string \<times> string) list" where
  "edge_triples g =
     concat (map (\<lambda>p. map (\<lambda>r. (name (heap g ! p), rel r, name (heap g ! target r)))
                          (relations (heap g ! p)))
               (all_entities g))"

definition entity_names :: "graph \<Rightarrow> string list" where
  "entity_names g = map (\<lambda>p. name (heap g ! p)) (all_entities g)"

text \<open>
  C10. There is an import line whose source segment is longer than 127 bytes for which
  \<open>parse_relation_line\<close> succeeds with the segment cut to its first 127 bytes; the line
  counts as loaded, nothing is skipped, and the relationship is recorded under the
  truncated name.
\<close>

theorem parse_relation_line_truncates:
  "\<exists>seg. length seg > 127 \<and>
      parse_relation_line (seg @ ''|r|b'') = Some (take 127 seg, ''r'', ''b'') \<and>
      (case load_from_file empty_graph (Some (seg @ ''|r|b'' @ [CHR 0x0A])) of
         (g, rep) \<Rightarrow> rep = Some \<lparr>loaded = 1, skipped = 0\<rparr> \<and>
                     edge_triples g = [(take 127 seg, ''r'', ''b'')])"
  by (rule exI[of _ "replicate 130 CHR ''x''"]) code_simp

lemma parse_relation_line_no_bar:
  "CHR ''|'' \<notin> set line \<Longrightarrow> parse_relation_line line = None"
  by (simp add: parse_relation_line_def strchr_def)

lemma parse_relation_line_one_bar:
  "CHR ''|'' \<notin> set (drop (Suc (length (takeWhile (\<lambda>x. x \<noteq> CHR ''|'') line))) line)
     \<Longrightarrow> parse_relation_line line = None"
  by (simp add: parse_relation_line_def strchr_def)

text \<open>
  The example of the specification: a valid line and a line without delimiter give one
  relation loaded and one line skipped, and the valid relation is there afterwards.
\<close>

lemma load_from_file_malformed_line_example:
  "(case load_from_file empty_graph
           (Some (''Alice|knows|Bob'' @ [CHR 0x0A] @ ''Alice knows Bob'' @ [CHR 0x0A])) of
      (g, rep) \<Rightarrow> rep = Some \<lparr>loaded = 1, skipped = 1\<rparr> \<and>
                  edge_triples g = [(''Alice'', ''knows'', ''Bob'')])"
  by code_simp

text \<open>
  C5 (the code departs from the claim). The line \<^verbatim>\<open>a| |b\<close> has a label that is empty after
  trimming, so it does not yield three non-empty segments; \<open>parse_relation_line\<close> tests the
  lengths before it trims, accepts the line, and the relation is loaded with an empty
  label, nothing skipped.
\<close>

theorem load_from_file_blank_label_accepted:
  "(case load_from_file empty_graph (Some (''a| |b'' @ [CHR 0x0A])) of
      (g, rep) \<Rightarrow> rep = Some \<lparr>loaded = 1, skipped = 0\<rparr> \<and>
                  edge_triples g = [(''a'', [], ''b'')])"
  by code_simp


text \<open>
  C4 (the code departs from the claim). Importing the line \<^verbatim>\<open>a|r|\<close>, 127 blanks, \<^verbatim>\<open>b\<close>
  creates an entity whose name is empty: the target segment is cut to its first 127 bytes
  after the test for an empty segment and before trimming. Adding an entity twice under
  the same name of 128 bytes through the menu creates two entities with one and the same
  name: the lookup compares the whole name and the entity is stored under its first 127
  bytes.
\<close>

definition padded_target_line :: string where
  "padded_target_line = ''a|r|'' @ replicate 127 CHR '' '' @ ''b''"

theorem index_invariant_broken:
  "(case load_from_file empty_graph (Some (padded_target_line @ [CHR 0x0A])) of
      (g, rep) \<Rightarrow> rep = Some \<lparr>loaded = 1, skipped = 0\<rparr> \<and>
                  edge_triples g = [(''a'', ''r'', [])] \<and> [] \<in> set (entity_names g)) \<and>
   (case menu_add_entity empty_graph (con_pick long_name) of
      (g1, con1) \<Rightarrow>
        (case menu_add_entity g1 (con_pick long_name) of
           (g2, con2) \<Rightarrow> entity_names g2 = [replicate 127 CHR ''a'', replicate 127 CHR ''a'']))"
  by code_simp


subsection \<open>Well-formed graphs\<close>

text \<open>
  A graph is well formed when the table links exactly the allocated entities and every
  relation points to an allocated entity.
\<close>

definition wf_graph :: "graph \<Rightarrow> bool" where
  "wf_graph g \<longleftrightarrow>
     set (all_entities g) = {..<length (heap g)} \<and>
     (\<forall>p < length (heap g). \<forall>r \<in> set (relations (heap g ! p)). target r < length (heap g))"

lemma wf_empty_graph: "wf_graph empty_graph"
  by (simp add: wf_graph_def empty_graph_def all_entities_def)

lemma bucket_subset: "p \<in> set (gHash g (hash_index nm)) \<Longrightarrow> p \<in> set (all_entities g)"
  unfolding all_entities_def using hash_index_less[of nm] by auto

lemma find_entity_exact_SomeD:
  assumes "find_entity_exact g nm = Some p"
  shows "p \<in> set (all_entities g)" "name (heap g ! p) = nm"
  using assms unfolding find_entity_exact_def
  by (auto simp: find_Some_iff intro!: bucket_subset[of _ g nm] nth_mem)

lemma create_entity_heap:
  "heap (snd (create_entity g nm)) =
     heap g @ [\<lparr>name = take (NAME_LEN - 1) nm, relations = [], visited = False, prev = None\<rparr>]"
  "fst (create_entity g nm) = length (heap g)"
  by (simp_all add: create_entity_def Let_def)

lemma wf_create_entity:
  assumes "wf_graph g"
  shows "wf_graph (snd (create_entity g nm))"
proof -
  let ?g = "snd (create_entity g nm)"
  have s: "set (all_entities ?g) = {..<length (heap ?g)}"
    using assms by (auto simp: all_entities_create_set create_entity_heap wf_graph_def)
  have r: "\<forall>p < length (heap ?g). \<forall>r \<in> set (relations (heap ?g ! p)).
             target r < length (heap ?g)"
  proof (intro allI impI ballI)
    fix p r
    assume p: "p < length (heap ?g)" and r: "r \<in> set (relations (heap ?g ! p))"
    show "target r < length (heap ?g)"
    proof (cases "p < length (heap g)")
      case True
      then have "heap ?g ! p = heap g ! p" by (simp add: create_entity_heap nth_append)
      with r True assms have "target r < length (heap g)" by (auto simp: wf_graph_def)
      then show ?thesis by (simp add: create_entity_heap)
    next
      case False
      with p have "p = length (heap g)" by (simp add: create_entity_heap)
      with r show ?thesis by (simp add: create_entity_heap)
    qed
  qed
  show ?thesis unfolding wf_graph_def using s r by blast
qed

lemma wf_get_or_create_entity:
  assumes "wf_graph g"
  shows "wf_graph (snd (get_or_create_entity g nm))"
    and "fst (get_or_create_entity g nm) < length (heap (snd (get_or_create_entity g nm)))"
proof -
  show "wf_graph (snd (get_or_create_entity g nm))"
    using assms wf_create_entity[OF assms, of nm]
    by (simp add: get_or_create_entity_def split: option.splits)
  show "fst (get_or_create_entity g nm) < length (heap (snd (get_or_create_entity g nm)))"
  proof (cases "find_entity_exact g nm")
    case None
    then show ?thesis by (simp add: get_or_create_entity_def create_entity_heap)
  next
    case (Some p)
    from find_entity_exact_SomeD(1)[OF this] assms have "p < length (heap g)"
      by (auto simp: wf_graph_def)
    with Some show ?thesis by (simp add: get_or_create_entity_def)
  qed
qed

lemma get_or_create_entity_grows:
  "length (heap g) \<le> length (heap (snd (get_or_create_entity g nm)))"
  by (simp add: get_or_create_entity_def create_entity_heap split: option.splits)

lemma wf_add_relationship:
  assumes "wf_graph g"
  shows "wf_graph (add_relationship g src rl tgt)"
proof -
  obtain S g1 where g1: "get_or_create_entity g src = (S, g1)"
    by (cases "get_or_create_entity g src")
  obtain T g2 where g2: "get_or_create_entity g1 tgt = (T, g2)"
    by (cases "get_or_create_entity g1 tgt")
  have w1: "wf_graph g1" and S1: "S < length (heap g1)"
    using wf_get_or_create_entity[OF assms, of src] g1 by simp_all
  have w2: "wf_graph g2" and T: "T < length (heap g2)"
    using wf_get_or_create_entity[OF w1, of tgt] g2 by simp_all
  have S: "S < length (heap g2)"
    using S1 get_or_create_entity_grows[of g1 tgt] g2 by simp
  let ?R = "\<lparr>rel = take (REL_LEN - 1) rl, target = T\<rparr>"
  let ?h = "(heap g2)[S := (heap g2 ! S)\<lparr>relations := ?R # relations (heap g2 ! S)\<rparr>]"
  have eq: "add_relationship g src rl tgt = g2\<lparr>heap := ?h\<rparr>"
    by (simp add: add_relationship_def g1 g2 Let_def)
  have a: "all_entities (g2\<lparr>heap := ?h\<rparr>) = all_entities g2"
    by (simp add: all_entities_def)
  have "\<forall>p < length ?h. \<forall>r \<in> set (relations (?h ! p)). target r < length ?h"
  proof (intro allI impI ballI)
    fix p r
    assume p: "p < length ?h" and r: "r \<in> set (relations (?h ! p))"
    show "target r < length ?h"
    proof (cases "p = S")
      case True
      with r S have "r = ?R \<or> r \<in> set (relations (heap g2 ! S))" by auto
      then show ?thesis using T w2 S by (auto simp: wf_graph_def)
    next
      case False
      with r p w2 show ?thesis by (auto simp: wf_graph_def)
    qed
  qed
  then show ?thesis
    unfolding eq wf_graph_def a using w2 by (simp add: wf_graph_def)
qed

lemma wf_load_loop:
  "wf_graph g \<Longrightarrow> wf_graph (fst (load_loop g fp count bad))"
proof (induction g fp count bad rule: load_loop.induct)
  case (1 g fp count bad)
  show ?case
  proof (cases "fgets LINE_BUF fp")
    case (Pair ob r)
    show ?thesis
    proof (cases ob)
      case None
      with Pair "1.prems" show ?thesis by (subst load_loop.simps) simp
    next
      case (Some buf)
      note fg = Pair[unfolded Some]
      let ?line = "trim (strip_eol buf)"
      show ?thesis
      proof (cases "?line = []")
        case True
        with "1.IH"(1)[OF fg[symmetric] refl refl True "1.prems"] fg show ?thesis
          by (subst load_loop.simps) simp
      next
        case False
        note ne = this
        show ?thesis
        proof (cases "hd ?line = CHR ''#''")
          case True
          with "1.IH"(2)[OF fg[symmetric] refl refl ne True "1.prems"] fg ne show ?thesis
            by (subst load_loop.simps) simp
        next
          case False
          note nc = this
          show ?thesis
          proof (cases "parse_relation_line ?line")
            case None
            with "1.IH"(3)[OF fg[symmetric] refl refl ne nc None "1.prems"] fg ne nc show ?thesis
              by (subst load_loop.simps) simp
          next
            case (Some tr)
            obtain src rl tgt where tr: "tr = (src, rl, tgt)" by (cases tr)
            have w: "wf_graph (add_relationship g src rl tgt)"
              using "1.prems" by (rule wf_add_relationship)
            from "1.IH"(4)[OF fg[symmetric] refl refl ne nc Some[unfolded tr] refl refl w]
            show ?thesis using fg ne nc Some tr
              by (subst load_loop.simps) simp
          qed
        qed
      qed
    qed
  qed
qed

lemma wf_load_from_file:
  assumes "wf_graph g"
  shows "wf_graph (fst (load_from_file g file))"
proof (cases "file")
  case None
  with assms show ?thesis by (simp add: load_from_file_def)
next
  case (Some fp)
  from assms have "wf_graph (fst (load_loop g fp 0 0))" by (rule wf_load_loop)
  with Some show ?thesis by (auto simp add: load_from_file_def split: prod.splits)
qed

lemma wf_menu_add_entity: "wf_graph g \<Longrightarrow> wf_graph (fst (menu_add_entity g con))"
  using wf_create_entity[of g]
  by (auto simp: menu_add_entity_def Let_def split: prod.splits option.splits)

lemma wf_menu_add_relationship:
  "wf_graph g \<Longrightarrow> wf_graph (fst (menu_add_relationship g con))"
  using wf_add_relationship[of g]
  by (auto simp: menu_add_relationship_def Let_def split: prod.splits)

subsection \<open>Marks left by a query\<close>

definition clear_entity :: "Entity \<Rightarrow> Entity" where
  "clear_entity e = e\<lparr>visited := False, prev := None\<rparr>"

text \<open>The same graph with no mark on any allocated entity.\<close>

definition clear_marks :: "graph \<Rightarrow> graph" where
  "clear_marks g = g\<lparr>heap := map clear_entity (heap g)\<rparr>"

text \<open>What a query shows: the report or path, and the console.\<close>

definition outcome ::
  "fault + (path_result \<times> graph \<times> console) \<Rightarrow> fault + (path_result \<times> console)" where
  "outcome x = (case x of Inl f \<Rightarrow> Inl f | Inr (r, g, c) \<Rightarrow> Inr (r, c))"

lemma clear_entity_simps [simp]:
  "name (clear_entity e) = name e"
  "relations (clear_entity e) = relations e"
  "visited (clear_entity e) = False"
  "prev (clear_entity e) = None"
  "clear_entity (clear_entity e) = clear_entity e"
  "clear_entity (e\<lparr>visited := v\<rparr>) = clear_entity e"
  "clear_entity (e\<lparr>visited := v, prev := q\<rparr>) = clear_entity e"
  by (simp_all add: clear_entity_def)

lemma fold_update_length:
  "length (fold (\<lambda>p es. es[p := f (es ! p)]) ps es) = length es"
  by (induction ps arbitrary: es) simp_all

lemma fold_update_nth:
  assumes "\<And>e. f (f e) = f e" and "i < length es"
  shows "fold (\<lambda>p es. es[p := f (es ! p)]) ps es ! i = (if i \<in> set ps then f (es ! i) else es ! i)"
  using assms(2)
proof (induction ps arbitrary: es)
  case Nil
  then show ?case by simp
next
  case (Cons p ps)
  let ?es = "es[p := f (es ! p)]"
  have len: "i < length ?es" using Cons.prems by simp
  have n: "?es ! i = (if i = p then f (es ! i) else es ! i)"
    using Cons.prems by (auto simp: nth_list_update)
  show ?case
    using Cons.IH[OF len] n assms(1) by auto
qed

lemma reset_bfs_marks_clears:
  assumes "wf_graph g"
  shows "reset_bfs_marks g = clear_marks g"
proof -
  let ?h = "fold (\<lambda>p es. es[p := (es ! p)\<lparr>visited := False, prev := None\<rparr>])
              (all_entities g) (heap g)"
  have f: "(\<lambda>p es. es[p := (es ! p)\<lparr>visited := False, prev := None\<rparr>])
            = (\<lambda>p es. es[p := clear_entity (es ! p)])"
    by (simp add: clear_entity_def)
  have "?h = map clear_entity (heap g)"
  proof (rule nth_equalityI)
    show "length ?h = length (map clear_entity (heap g))"
      by (simp add: f fold_update_length)
  next
    fix i assume "i < length ?h"
    then have i: "i < length (heap g)" by (simp add: f fold_update_length)
    then have "i \<in> set (all_entities g)" using assms by (simp add: wf_graph_def)
    then show "?h ! i = map clear_entity (heap g) ! i"
      unfolding f using i by (simp add: fold_update_nth)
  qed
  then show ?thesis by (simp add: reset_bfs_marks_def clear_marks_def)
qed

lemma scan_relations_structure:
  "scan_relations cap cur rs es Q = Inr (es', Q') \<Longrightarrow>
     map clear_entity es' = map clear_entity es"
proof (induction rs arbitrary: es Q)
  case Nil
  then show ?case by simp
next
  case (Cons r rs)
  show ?case
  proof (cases "target r \<ge> length es")
    case True
    with Cons.prems show ?thesis by simp
  next
    case False
    note inb = this
    show ?thesis
    proof (cases "visited (es ! target r)")
      case True
      with inb Cons.prems have "scan_relations cap cur rs es Q = Inr (es', Q')" by simp
      from Cons.IH[OF this] show ?thesis .
    next
      case False
      let ?es = "es[target r := (es ! target r)\<lparr>visited := True, prev := Some cur\<rparr>]"
      from False inb Cons.prems
      have "scan_relations cap cur rs ?es (Q @ [target r]) = Inr (es', Q')"
        by (auto simp: Let_def split: if_splits)
      from Cons.IH[OF this] have "map clear_entity es' = map clear_entity ?es" .
      also have "\<dots> = map clear_entity es"
        using inb by (simp add: map_update list_update_same_conv)
      finally show ?thesis .
    qed
  qed
qed

lemma bfs_loop_structure:
  "bfs_loop tgt es Q h cap = Inr (found, es') \<Longrightarrow>
     map clear_entity es' = map clear_entity es"
proof (induction tgt es Q h cap rule: bfs_loop.induct)
  case (1 tgt es Q h cap)
  show ?case
  proof (cases "h < length Q")
    case False
    with "1.prems" show ?thesis by (subst (asm) bfs_loop.simps) simp
  next
    case True
    note lt = this
    let ?cap = "if length Q \<ge> cap then cap * 2 else cap"
    show ?thesis
    proof (cases "Q ! h = tgt")
      case True
      with lt "1.prems" show ?thesis by (subst (asm) bfs_loop.simps) (simp add: Let_def)
    next
      case False
      note ne = this
      show ?thesis
      proof (cases "scan_relations ?cap (Q ! h) (relations (es ! (Q ! h))) es Q")
        case (Inl f)
        with lt ne "1.prems" show ?thesis
          by (subst (asm) bfs_loop.simps) (simp add: Let_def)
      next
        case (Inr pr)
        obtain es1 Q1 where pr: "pr = (es1, Q1)" by (cases pr)
        have rec: "bfs_loop tgt es1 Q1 (h + 1) ?cap = Inr (found, es')"
          using lt ne Inr pr "1.prems" by (subst (asm) bfs_loop.simps) (simp add: Let_def)
        have "map clear_entity es' = map clear_entity es1"
          using "1.IH"[OF lt refl refl ne Inr[unfolded pr] refl rec] .
        also have "\<dots> = map clear_entity es"
          using scan_relations_structure[OF Inr[unfolded pr]] .
        finally show ?thesis .
      qed
    qed
  qed
qed

lemma collect_cong:
  "(\<And>x. x \<in> set xs \<Longrightarrow> P x = Q x) \<Longrightarrow> collect P xs sugg = collect Q xs sugg"
  by (induction xs arbitrary: sugg) auto

lemma collect_subset: "set (collect P xs sugg) \<subseteq> set sugg \<union> set xs"
proof (induction xs arbitrary: sugg)
  case Nil
  then show ?case by simp
next
  case (Cons x xs)
  show ?case using Cons.IH[of "sugg @ [x]"] Cons.IH[of sugg] by auto
qed

text \<open>Two graphs with the same table in which the entities of the table have the same names.\<close>

definition names_agree :: "graph \<Rightarrow> graph \<Rightarrow> bool" where
  "names_agree g g' \<longleftrightarrow>
     gHash g' = gHash g \<and>
     (\<forall>p \<in> set (all_entities g). name (heap g' ! p) = name (heap g ! p))"

lemma names_agree_all_entities: "names_agree g g' \<Longrightarrow> all_entities g' = all_entities g"
  by (simp add: names_agree_def all_entities_def)

lemma find_entity_exact_cong:
  assumes "names_agree g g'"
  shows "find_entity_exact g' nm = find_entity_exact g nm"
proof -
  have "\<And>p. p \<in> set (gHash g (hash_index nm)) \<Longrightarrow> name (heap g' ! p) = name (heap g ! p)"
    using assms bucket_subset[of _ g nm] by (auto simp: names_agree_def)
  then have "find (\<lambda>p. name (heap g' ! p) = nm) (gHash g (hash_index nm))
           = find (\<lambda>p. name (heap g ! p) = nm) (gHash g (hash_index nm))"
    by (intro find_cong) auto
  then show ?thesis using assms by (simp add: find_entity_exact_def names_agree_def)
qed

lemma fuzzy_pick_cong:
  assumes "names_agree g g'" "set list \<subseteq> set (all_entities g)"
  shows "fuzzy_pick_from_suggestions g' list con = fuzzy_pick_from_suggestions g list con"
proof -
  have e: "map (\<lambda>p. name (heap g' ! p)) list = map (\<lambda>p. name (heap g ! p)) list"
    using assms by (intro map_cong) (auto simp: names_agree_def)
  show ?thesis unfolding fuzzy_pick_from_suggestions_def e by (rule refl)
qed

lemma search_entity_smart_cong:
  assumes "names_agree g g'"
  shows "search_entity_smart g' inp con = search_entity_smart g inp con"
proof -
  let ?key = "normalize_key inp"
  have n: "\<And>p. p \<in> set (all_entities g) \<Longrightarrow> name (heap g' ! p) = name (heap g ! p)"
    using assms by (simp add: names_agree_def)
  have a: "all_entities g' = all_entities g" using assms by (rule names_agree_all_entities)
  have f: "find (\<lambda>p. ci_cmp (name (heap g' ! p)) ?key = 0) (all_entities g)
         = find (\<lambda>p. ci_cmp (name (heap g ! p)) ?key = 0) (all_entities g)"
    by (intro find_cong) (auto simp: n)
  have c1: "collect (prefix_match g' ?key) (all_entities g) []
          = collect (prefix_match g ?key) (all_entities g) []"
    by (intro collect_cong) (simp add: prefix_match_def n)
  have c2: "\<And>sugg. collect (\<lambda>p. ci_contains (name (heap g' ! p)) ?key) (all_entities g) sugg
          = collect (\<lambda>p. ci_contains (name (heap g ! p)) ?key) (all_entities g) sugg"
    by (intro collect_cong) (simp add: n)
  have s: "\<And>P Q. set (if length (collect P (all_entities g) []) = 0
                then collect Q (all_entities g) (collect P (all_entities g) [])
                else collect P (all_entities g) []) \<subseteq> set (all_entities g)"
  proof -
    fix P Q
    have s1: "set (collect P (all_entities g) []) \<subseteq> set (all_entities g)"
      using collect_subset[of P "all_entities g" "[]"] by simp
    have s2: "set (collect Q (all_entities g) (collect P (all_entities g) []))
                \<subseteq> set (all_entities g)"
      using collect_subset[of Q "all_entities g" "collect P (all_entities g) []"] s1 by blast
    show "set (if length (collect P (all_entities g) []) = 0
                then collect Q (all_entities g) (collect P (all_entities g) [])
                else collect P (all_entities g) []) \<subseteq> set (all_entities g)"
      using s1 s2 by (simp only: split: if_splits) simp
  qed
  have s1: "\<And>P. set (collect P (all_entities g) []) \<subseteq> set (all_entities g)"
    using s by (metis collect_subset empty_set sup_bot.left_neutral)
  have fp: "\<And>P. fuzzy_pick_from_suggestions g' (collect P (all_entities g) []) con
               = fuzzy_pick_from_suggestions g (collect P (all_entities g) []) con"
    by (rule fuzzy_pick_cong[OF assms s1])
  show ?thesis
    unfolding search_entity_smart_def Let_def a f c1 c2
    by (simp add: fp split: option.splits)
qed

lemma resolve_cong:
  "names_agree g g' \<Longrightarrow> resolve g' inp fz con = resolve g inp fz con"
  by (simp add: resolve_def search_entity_smart_cong find_entity_exact_cong)

lemma clear_marks_eqD:
  assumes "clear_marks g' = clear_marks g"
  shows "gHash g' = gHash g" "map clear_entity (heap g') = map clear_entity (heap g)"
    "length (heap g') = length (heap g)"
proof -
  have "gHash (clear_marks g') = gHash (clear_marks g)" using assms by simp
  then show "gHash g' = gHash g" by (simp add: clear_marks_def)
  have "heap (clear_marks g') = heap (clear_marks g)" using assms by simp
  then show m: "map clear_entity (heap g') = map clear_entity (heap g)"
    by (simp add: clear_marks_def)
  then show "length (heap g') = length (heap g)" by (metis length_map)
qed

lemma clear_marks_nth:
  assumes "clear_marks g' = clear_marks g" "p < length (heap g)"
  shows "name (heap g' ! p) = name (heap g ! p)"
    "relations (heap g' ! p) = relations (heap g ! p)"
proof -
  have "map clear_entity (heap g') ! p = map clear_entity (heap g) ! p"
    using clear_marks_eqD(2)[OF assms(1)] by simp
  then have e: "clear_entity (heap g' ! p) = clear_entity (heap g ! p)"
    using assms(2) clear_marks_eqD(3)[OF assms(1)] by simp
  show "name (heap g' ! p) = name (heap g ! p)"
    using e by (metis clear_entity_simps(1))
  show "relations (heap g' ! p) = relations (heap g ! p)"
    using e by (metis clear_entity_simps(2))
qed

lemma wf_graph_same_structure:
  assumes "clear_marks g' = clear_marks g" "wf_graph g"
  shows "wf_graph g'"
proof -
  have a: "all_entities g' = all_entities g"
    using clear_marks_eqD(1)[OF assms(1)] by (simp add: all_entities_def)
  have l: "length (heap g') = length (heap g)" by (rule clear_marks_eqD(3)[OF assms(1)])
  show ?thesis
    unfolding wf_graph_def a l
    using assms(2) clear_marks_nth(2)[OF assms(1)] by (simp add: wf_graph_def)
qed

lemma names_agree_same_structure:
  assumes "clear_marks g' = clear_marks g" "wf_graph g"
  shows "names_agree g g'"
  unfolding names_agree_def
  using clear_marks_eqD(1)[OF assms(1)] clear_marks_nth(1)[OF assms(1)] assms(2)
  by (auto simp: wf_graph_def)

lemma clear_marks_idem: "clear_marks (clear_marks g) = clear_marks g"
  by (simp add: clear_marks_def)

lemma find_path_bfs_marks_irrelevant:
  assumes "wf_graph g" "clear_marks g' = clear_marks g"
  shows "outcome (find_path_bfs g' a b fz con) = outcome (find_path_bfs g a b fz con)"
proof -
  have w': "wf_graph g'" using assms(2,1) by (rule wf_graph_same_structure)
  have r: "\<And>inp c. resolve g' inp fz c = resolve g inp fz c"
    using names_agree_same_structure[OF assms(2,1)] by (rule resolve_cong)
  have m: "reset_bfs_marks g' = reset_bfs_marks g"
    using reset_bfs_marks_clears[OF w'] reset_bfs_marks_clears[OF assms(1)] assms(2) by simp
  show ?thesis
    unfolding find_path_bfs_def r m
    by (simp add: outcome_def Let_def split: sum.splits prod.splits option.splits)
qed

lemma map_clear_update:
  "map clear_entity (es[s := (es ! s)\<lparr>visited := v\<rparr>]) = map clear_entity es"
proof (cases "s < length es")
  case True
  then show ?thesis by (simp add: map_update list_update_same_conv)
next
  case False
  then have "length es \<le> s" by simp
  then show ?thesis by (simp only: list_update_beyond)
qed

lemma find_path_bfs_structure:
  assumes "wf_graph g" "find_path_bfs g a b fz con = Inr (r1, g1, con1)"
  shows "clear_marks g1 = clear_marks g"
proof -
  have m: "reset_bfs_marks g = clear_marks g" by (rule reset_bfs_marks_clears[OF assms(1)])
  have k: "\<And>s found t es. bfs_loop t (start_marks g s) [s] 0 QUEUE_INIT = Inr (found, es)
      \<Longrightarrow> clear_marks ((reset_bfs_marks g)\<lparr>heap := es\<rparr>) = clear_marks g"
  proof -
    fix s found t es
    assume "bfs_loop t (start_marks g s) [s] 0 QUEUE_INIT = Inr (found, es)"
    then have "map clear_entity es = map clear_entity (start_marks g s)"
      by (rule bfs_loop_structure)
    also have "\<dots> = map clear_entity (heap g)"
      unfolding start_marks_def m
      by (simp add: clear_marks_def map_clear_update)
    finally show "clear_marks ((reset_bfs_marks g)\<lparr>heap := es\<rparr>) = clear_marks g"
      by (simp add: clear_marks_def m)
  qed
  show ?thesis
    using assms(2) k
    unfolding find_path_bfs_def start_marks_def Let_def
    by (auto split: sum.splits prod.splits option.splits if_splits)
qed

text \<open>
  C7. In a well-formed graph (every graph the operations build is one, see \<open>reachable_wf\<close>
  below) let a first query \<open>find_path_bfs g a b\<close> end in the graph \<open>g1\<close>. The reset at the
  start of the next query clears the marks of every entity (\<open>reset_bfs_marks g1\<close> is \<open>g1\<close>
  with all marks cleared), and what the next query \<open>find_path_bfs g1 a' c\<close> reports (the
  failure or the path, and the console) is what it reports on the graph that carries no
  mark at all.
\<close>

theorem reset_between_queries:
  assumes "wf_graph g" and "find_path_bfs g a b fz con = Inr (r1, g1, con1)"
  shows "reset_bfs_marks g1 = clear_marks g1 \<and>
         outcome (find_path_bfs g1 a' c fz' con')
           = outcome (find_path_bfs (clear_marks g) a' c fz' con')"
proof -
  have s: "clear_marks g1 = clear_marks g" using assms by (rule find_path_bfs_structure)
  have w1: "wf_graph g1" using s assms(1) by (rule wf_graph_same_structure)
  have "outcome (find_path_bfs g1 a' c fz' con') = outcome (find_path_bfs g a' c fz' con')"
    using assms(1) s by (rule find_path_bfs_marks_irrelevant)
  also have "\<dots> = outcome (find_path_bfs (clear_marks g) a' c fz' con')"
    using find_path_bfs_marks_irrelevant[OF assms(1) clear_marks_idem] by simp
  finally show ?thesis using reset_bfs_marks_clears[OF w1] by simp
qed

lemma outcome_InrD: "outcome x = Inr (r, c) \<Longrightarrow> \<exists>g. x = Inr (r, g, c)"
  by (auto simp: outcome_def split: sum.splits)

lemma wf_example_graph: "wf_graph example_graph"
  unfolding example_graph_def by (intro wf_add_relationship wf_empty_graph)

theorem reset_between_queries_witness:
  "wf_graph example_graph \<and>
   (\<exists>g1. find_path_bfs example_graph ''Alice'' ''Carol'' False quiet
            = Inr (PathFound [''Alice'', ''Carol''], g1, quiet) \<and>
      reset_bfs_marks g1 = clear_marks g1 \<and>
      outcome (find_path_bfs g1 ''Alice'' ''Bob'' False quiet)
        = outcome (find_path_bfs (clear_marks example_graph) ''Alice'' ''Bob'' False quiet))"
proof -
  have "outcome (find_path_bfs example_graph ''Alice'' ''Carol'' False quiet)
          = Inr (PathFound [''Alice'', ''Carol''], quiet)"
    by code_simp
  then obtain g1 where g1: "find_path_bfs example_graph ''Alice'' ''Carol'' False quiet
            = Inr (PathFound [''Alice'', ''Carol''], g1, quiet)"
    using outcome_InrD by blast
  from reset_between_queries[OF wf_example_graph g1, of "''Alice''" "''Bob''" False quiet]
  show ?thesis using wf_example_graph g1 by blast
qed

subsection \<open>Reachable graphs\<close>

text \<open>
  The graphs the program reaches from the empty table by the menu's data entry, by
  imports and by path queries.
\<close>

inductive reachable :: "graph \<Rightarrow> bool" where
  start: "reachable empty_graph"
| entity: "reachable g \<Longrightarrow> reachable (fst (menu_add_entity g con))"
| relationship: "reachable g \<Longrightarrow> reachable (fst (menu_add_relationship g con))"
| imported: "reachable g \<Longrightarrow> reachable (fst (load_from_file g fl))"
| queried: "reachable g \<Longrightarrow> find_path_bfs g a b fz con = Inr (r, g', con') \<Longrightarrow> reachable g'"

lemma reachable_wf: "reachable g \<Longrightarrow> wf_graph g"
proof (induction rule: reachable.induct)
  case start
  show ?case by (rule wf_empty_graph)
next
  case (entity g con)
  then show ?case by (intro wf_menu_add_entity)
next
  case (relationship g con)
  then show ?case by (intro wf_menu_add_relationship)
next
  case (imported g fl)
  then show ?case by (intro wf_load_from_file)
next
  case (queried g a b fz con r g' con')
  from find_path_bfs_structure[OF queried.IH queried.hyps(2)] queried.IH
  show ?case by (rule wf_graph_same_structure)
qed

text \<open>
  The part of the index invariant that holds: in every reachable graph the target of
  every relationship of an entity of the index is an entity of the index.
\<close>

lemma reachable_targets_in_index:
  assumes "reachable g" "p \<in> set (all_entities g)" "r \<in> set (relations (heap g ! p))"
  shows "target r \<in> set (all_entities g)"
  using reachable_wf[OF assms(1)] assms(2,3) by (auto simp: wf_graph_def)

subsection \<open>Export and import\<close>

lemma fgets_chunk_line:
  "CHR 0x0A \<notin> set ln \<Longrightarrow> length ln < k \<Longrightarrow>
     fgets_chunk k (ln @ CHR 0x0A # rest) = (ln @ [CHR 0x0A], rest)"
proof (induction ln arbitrary: k)
  case Nil
  then obtain j where "k = Suc j" by (cases k) auto
  then show ?case by simp
next
  case (Cons c ln)
  then obtain j where k: "k = Suc j" by (cases k) auto
  with Cons.prems have "length ln < j" "CHR 0x0A \<notin> set ln" "c \<noteq> CHR 0x0A" by auto
  with Cons.IH[of j] k show ?case by simp
qed

lemma fgets_line:
  assumes "CHR 0x0A \<notin> set ln" "length ln + 1 < n"
  shows "fgets n (ln @ CHR 0x0A # rest) = (Some (ln @ [CHR 0x0A]), rest)"
  using fgets_chunk_line[OF assms(1), of "n - 1" rest] assms(2)
  by (simp add: fgets_def)

lemma strip_eol_line:
  assumes "\<forall>c \<in> set ln. c \<noteq> CHR 0x0D \<and> c \<noteq> CHR 0x0A \<and> c \<noteq> CHR 0x00"
  shows "strip_eol (ln @ [CHR 0x0A]) = ln"
  using assms unfolding strip_eol_def by (induction ln) auto

lemma squeeze_go_spaces:
  "c \<in> set (squeeze_go b x) \<Longrightarrow> isspace c \<Longrightarrow> c = CHR '' ''"
  by (induction b x rule: squeeze_go.induct) (auto split: if_splits)

lemma squeeze_go_last:
  "x \<noteq> [] \<Longrightarrow> \<not> isspace (last x) \<Longrightarrow> last (squeeze_go b x) = last x"
proof (induction b x rule: squeeze_go.induct)
  case (1 in_space)
  then show ?case by simp
next
  case (2 in_space c s)
  show ?case
  proof (cases "s = []")
    case True
    with 2(4,5) show ?thesis by simp
  next
    case False
    then have l: "last (c # s) = last s" by simp
    have ns: "\<not> isspace (last s)" using "2.prems" l by simp
    have nall: "\<not> (\<forall>c \<in> set s. isspace c)" using False ns by (meson last_in_set)
    then have ne: "\<And>b. squeeze_go b s \<noteq> []" using False by (simp add: squeeze_go_Nil_iff)
    show ?thesis
      using "2.IH"(1)[OF _ _ False ns] "2.IH"(2)[OF _ _ False ns] "2.IH"(3)[OF _ False ns]
        ne l
      by (auto simp del: last.simps simp add: last_ConsR)
  qed
qed

text \<open>
  A field a line can carry unchanged: not empty, at most 127 bytes, without the
  delimiter and without a NUL byte, and left as it is by trimming and squeezing.
\<close>

definition field_ok :: "string \<Rightarrow> bool" where
  "field_ok s \<longleftrightarrow>
     s \<noteq> [] \<and> length s \<le> 127 \<and> CHR ''|'' \<notin> set s \<and> CHR 0x00 \<notin> set s \<and>
     squeeze_spaces (trim s) = s"

lemma field_ok_ends:
  assumes "field_ok s"
  shows "\<not> isspace (hd s)" "\<not> isspace (last s)"
proof -
  have n: "squeeze_spaces (trim s) = s" and ne: "s \<noteq> []" using assms by (simp_all add: field_ok_def)
  have tne: "trim s \<noteq> []" using n ne by (auto simp: squeeze_spaces_def)
  obtain c r where cr: "trim s = c # r" using tne by (cases "trim s") auto
  have "\<not> isspace c" using trim_hd_last(1)[OF tne] cr by simp
  then have "hd (squeeze_spaces (trim s)) = c" by (simp add: cr squeeze_spaces_def)
  then show "\<not> isspace (hd s)" using n \<open>\<not> isspace c\<close> by simp
  have "last (squeeze_spaces (trim s)) = last (trim s)"
    unfolding squeeze_spaces_def using tne trim_hd_last(2)[OF tne] by (rule squeeze_go_last)
  then show "\<not> isspace (last s)" using n trim_hd_last(2)[OF tne] by simp
qed

lemma field_ok_no_eol:
  assumes "field_ok s" "c \<in> set s"
  shows "c \<noteq> CHR 0x0D \<and> c \<noteq> CHR 0x0A \<and> c \<noteq> CHR 0x00 \<and> c \<noteq> CHR ''|''"
proof -
  have "c \<in> set (squeeze_go False (trim s))"
    using assms by (simp add: field_ok_def squeeze_spaces_def)
  then have "isspace c \<Longrightarrow> c = CHR '' ''" by (rule squeeze_go_spaces)
  moreover have "isspace (CHR 0x0D)" "isspace (CHR 0x0A)" by (simp_all add: isspace_def)
  ultimately have "c \<noteq> CHR 0x0D \<and> c \<noteq> CHR 0x0A" by auto
  then show ?thesis using assms by (auto simp: field_ok_def)
qed

definition triple_text :: "string \<times> string \<times> string \<Rightarrow> string" where
  "triple_text x = (case x of (s, l, t) \<Rightarrow> s @ ''|'' @ l @ ''|'' @ t)"

lemma strchr_bar:
  "CHR ''|'' \<notin> set s \<Longrightarrow> strchr (s @ CHR ''|'' # rest) CHR ''|'' = Some (length s)"
proof -
  assume "CHR ''|'' \<notin> set s"
  then have "takeWhile (\<lambda>x. x \<noteq> CHR ''|'') (s @ CHR ''|'' # rest) = s"
    by (induction s) auto
  then show ?thesis by (simp add: strchr_def)
qed

lemma parse_relation_line_fields:
  assumes "field_ok s" "field_ok l" "field_ok t"
  shows "parse_relation_line (triple_text (s, l, t)) = Some (s, l, t)"
proof -
  let ?line = "s @ CHR ''|'' # l @ CHR ''|'' # t"
  have b: "CHR ''|'' \<notin> set s" "CHR ''|'' \<notin> set l" using assms by (simp_all add: field_ok_def)
  have p1: "strchr ?line CHR ''|'' = Some (length s)" using b(1) by (rule strchr_bar)
  have d: "drop (length s + 1) ?line = l @ CHR ''|'' # t" by simp
  have p2: "strchr (l @ CHR ''|'' # t) CHR ''|'' = Some (length l)"
    using b(2) by (rule strchr_bar)
  have d2: "drop (length s + 1 + length l + 1) ?line = t" by simp
  have len: "length s \<le> 127" "length l \<le> 127" "length t \<le> 127" "s \<noteq> []" "l \<noteq> []" "t \<noteq> []"
    using assms by (simp_all add: field_ok_def)
  have n: "squeeze_spaces (trim s) = s" "squeeze_spaces (trim l) = l" "squeeze_spaces (trim t) = t"
    using assms by (simp_all add: field_ok_def)
  have "parse_relation_line ?line = Some (s, l, t)"
    unfolding parse_relation_line_def p1 option.case d p2 Let_def d2
    using len n by (simp add: NAME_LEN_def REL_LEN_def)
  then show ?thesis by (simp add: triple_text_def)
qed

definition triple_ok :: "string \<times> string \<times> string \<Rightarrow> bool" where
  "triple_ok x = (case x of (s, l, t) \<Rightarrow>
      field_ok s \<and> field_ok l \<and> field_ok t \<and> hd s \<noteq> CHR ''#'')"

lemma load_loop_step:
  assumes "triple_ok (s, l, t)"
  shows "load_loop g (triple_text (s, l, t) @ CHR 0x0A # rest) count bad
           = load_loop (add_relationship g s l t) rest (count + 1) bad"
proof -
  let ?ln = "triple_text (s, l, t)"
  have ok: "field_ok s" "field_ok l" "field_ok t" and hash: "hd s \<noteq> CHR ''#''"
    using assms by (simp_all add: triple_ok_def)
  have ln: "?ln = s @ CHR ''|'' # l @ CHR ''|'' # t" by (simp add: triple_text_def)
  have ne: "s \<noteq> []" "t \<noteq> []" using ok by (simp_all add: field_ok_def)
  have chars: "\<forall>c \<in> set ?ln. c \<noteq> CHR 0x0D \<and> c \<noteq> CHR 0x0A \<and> c \<noteq> CHR 0x00"
    using field_ok_no_eol[OF ok(1)] field_ok_no_eol[OF ok(2)] field_ok_no_eol[OF ok(3)]
    unfolding ln by auto
  then have nl: "CHR 0x0A \<notin> set ?ln" by blast
  have "length ?ln \<le> 383" using ok unfolding ln by (simp add: field_ok_def)
  then have len: "length ?ln + 1 < LINE_BUF" by (simp add: LINE_BUF_def)
  have fg: "fgets LINE_BUF (?ln @ CHR 0x0A # rest) = (Some (?ln @ [CHR 0x0A]), rest)"
    using nl len by (rule fgets_line)
  have st: "strip_eol (?ln @ [CHR 0x0A]) = ?ln" using chars by (rule strip_eol_line)
  have lne: "?ln \<noteq> []" unfolding ln by simp
  have hd: "hd ?ln = hd s" unfolding ln using ne by simp
  have last: "last ?ln = last t" unfolding ln using ne by simp
  have tr: "trim ?ln = ?ln"
  proof (rule trim_id)
    show "?ln \<noteq> []" by (rule lne)
    show "\<not> isspace (hd ?ln)" unfolding hd by (rule field_ok_ends(1)[OF ok(1)])
    show "\<not> isspace (last ?ln)" unfolding last by (rule field_ok_ends(2)[OF ok(3)])
  qed
  have pr: "parse_relation_line ?ln = Some (s, l, t)"
    using ok by (rule parse_relation_line_fields)
  show ?thesis
    by (subst load_loop.simps) (simp add: fg st tr lne hd hash pr del: triple_text_def)
qed

lemma load_loop_end:
  "load_loop g [] count bad = (g, \<lparr>loaded = count, skipped = bad\<rparr>)"
  by (subst load_loop.simps) (simp add: fgets_def)

text \<open>The bytes \<^verbatim>\<open>save_to_file\<close> writes for a list of triples, one line each.\<close>

definition triple_lines :: "(string \<times> string \<times> string) list \<Rightarrow> string" where
  "triple_lines ts = concat (map (\<lambda>x. triple_text x @ [CHR 0x0A]) ts)"

definition add_triples :: "(string \<times> string \<times> string) list \<Rightarrow> graph \<Rightarrow> graph" where
  "add_triples ts g = fold (\<lambda>x g. case x of (s, l, t) \<Rightarrow> add_relationship g s l t) ts g"

lemma load_loop_lines:
  assumes "\<forall>x \<in> set ts. triple_ok x"
  shows "load_loop g (triple_lines ts) count bad
           = (add_triples ts g, \<lparr>loaded = count + length ts, skipped = bad\<rparr>)"
  using assms
proof (induction ts arbitrary: g count)
  case Nil
  show ?case by (simp add: triple_lines_def add_triples_def load_loop_end)
next
  case (Cons x ts)
  obtain s l t where x: "x = (s, l, t)" by (cases x)
  have ok: "triple_ok (s, l, t)" using Cons.prems x by simp
  have rest: "\<forall>x \<in> set ts. triple_ok x" using Cons.prems by simp
  have "triple_lines (x # ts) = triple_text (s, l, t) @ CHR 0x0A # triple_lines ts"
    by (simp add: triple_lines_def x)
  then have "load_loop g (triple_lines (x # ts)) count bad
      = load_loop (add_relationship g s l t) (triple_lines ts) (count + 1) bad"
    using load_loop_step[OF ok] by simp
  also have "\<dots> = (add_triples ts (add_relationship g s l t),
                    \<lparr>loaded = count + 1 + length ts, skipped = bad\<rparr>)"
    by (rule Cons.IH[OF rest])
  finally show ?case by (simp add: add_triples_def x)
qed

lemma concat_map_concat:
  "concat (map (\<lambda>p. concat (map f (h p))) ps) = concat (map f (concat (map h ps)))"
  by (induction ps) simp_all

lemma save_to_file_lines: "save_to_file g = triple_lines (edge_triples g)"
proof -
  have "\<And>p. relation_line g p
      = (\<lambda>r. triple_text (name (heap g ! p), rel r, name (heap g ! target r)) @ [CHR 0x0A])"
    by (rule ext) (simp add: relation_line_def triple_text_def)
  then have "\<And>p rs. concat (map (relation_line g p) rs)
      = triple_lines (map (\<lambda>r. (name (heap g ! p), rel r, name (heap g ! target r))) rs)"
    by (simp add: triple_lines_def comp_def)
  then have "save_to_file g
      = concat (map (\<lambda>p. triple_lines
            (map (\<lambda>r. (name (heap g ! p), rel r, name (heap g ! target r)))
                 (relations (heap g ! p)))) (all_entities g))"
    by (simp add: save_to_file_def)
  also have "\<dots> = triple_lines (edge_triples g)"
    unfolding triple_lines_def edge_triples_def
    by (rule concat_map_concat)
  finally show ?thesis .
qed

text \<open>The triples of the edges that leave an allocated entity.\<close>

definition trip :: "graph \<Rightarrow> (string \<times> string \<times> string) set" where
  "trip g = {(name (heap g ! p), rel r, name (heap g ! target r)) | p r.
               p < length (heap g) \<and> r \<in> set (relations (heap g ! p))}"

lemma tripI:
  "p < length (heap g) \<Longrightarrow> r \<in> set (relations (heap g ! p)) \<Longrightarrow>
     x = (name (heap g ! p), rel r, name (heap g ! target r)) \<Longrightarrow> x \<in> trip g"
  unfolding trip_def by blast

lemma tripE:
  assumes "x \<in> trip g"
  obtains p r where "p < length (heap g)" "r \<in> set (relations (heap g ! p))"
    "x = (name (heap g ! p), rel r, name (heap g ! target r))"
  using assms unfolding trip_def by blast

lemma edge_triples_set:
  assumes "wf_graph g"
  shows "set (edge_triples g) = trip g"
proof -
  have "set (all_entities g) = {..<length (heap g)}" using assms by (simp add: wf_graph_def)
  then show ?thesis unfolding edge_triples_def trip_def by auto
qed

lemma create_entity_nth:
  "p < length (heap g) \<Longrightarrow> heap (snd (create_entity g nm)) ! p = heap g ! p"
  by (simp add: create_entity_heap nth_append)

lemma trip_create_entity:
  assumes "wf_graph g"
  shows "trip (snd (create_entity g nm)) = trip g"
proof -
  let ?g = "snd (create_entity g nm)"
  let ?n = "length (heap g)"
  have len: "length (heap ?g) = Suc ?n" by (simp add: create_entity_heap)
  have new: "relations (heap ?g ! ?n) = []" by (simp add: create_entity_heap)
  have old: "\<And>p. p < ?n \<Longrightarrow> heap ?g ! p = heap g ! p" by (rule create_entity_nth)
  have tg: "\<And>p r. p < ?n \<Longrightarrow> r \<in> set (relations (heap g ! p)) \<Longrightarrow> target r < ?n"
    using assms by (auto simp: wf_graph_def)
  show ?thesis
  proof (rule set_eqI)
    fix x
    show "x \<in> trip ?g \<longleftrightarrow> x \<in> trip g"
    proof
      assume "x \<in> trip ?g"
      then obtain p r where x: "x = (name (heap ?g ! p), rel r, name (heap ?g ! target r))"
        and p: "p < Suc ?n" and r: "r \<in> set (relations (heap ?g ! p))"
        unfolding len[symmetric] by (rule tripE)
      have "p \<noteq> ?n" using r new by auto
      with p have p': "p < ?n" by simp
      then have r': "r \<in> set (relations (heap g ! p))" using r old by simp
      have "target r < ?n" using tg[OF p' r'] .
      then have "x = (name (heap g ! p), rel r, name (heap g ! target r))"
        using x old p' by simp
      with p' r' show "x \<in> trip g" by (rule tripI)
    next
      assume "x \<in> trip g"
      then obtain p r where x: "x = (name (heap g ! p), rel r, name (heap g ! target r))"
        and p: "p < ?n" and r: "r \<in> set (relations (heap g ! p))"
        by (rule tripE)
      have t: "target r < ?n" using tg[OF p r] .
      have x': "x = (name (heap ?g ! p), rel r, name (heap ?g ! target r))"
        using x old[OF p] old[OF t] by simp
      have p': "p < length (heap ?g)" using p len by simp
      have r': "r \<in> set (relations (heap ?g ! p))" using r old[OF p] by simp
      from p' r' x' show "x \<in> trip ?g" by (rule tripI)
    qed
  qed
qed

lemma trip_get_or_create_entity:
  "wf_graph g \<Longrightarrow> trip (snd (get_or_create_entity g nm)) = trip g"
  by (simp add: get_or_create_entity_def trip_create_entity split: option.splits)

lemma get_or_create_entity_nth:
  "p < length (heap g) \<Longrightarrow> heap (snd (get_or_create_entity g nm)) ! p = heap g ! p"
  by (simp add: get_or_create_entity_def create_entity_nth split: option.splits)

lemma get_or_create_entity_name:
  assumes "length nm \<le> NAME_LEN - 1"
  shows "name (heap (snd (get_or_create_entity g nm)) ! fst (get_or_create_entity g nm)) = nm"
proof (cases "find_entity_exact g nm")
  case None
  then show ?thesis using assms by (simp add: get_or_create_entity_def create_entity_heap)
next
  case (Some p)
  from find_entity_exact_SomeD(2)[OF this] Some show ?thesis
    by (simp add: get_or_create_entity_def)
qed

lemma trip_add_relationship:
  assumes "wf_graph g" "length s \<le> NAME_LEN - 1" "length t \<le> NAME_LEN - 1"
  shows "trip (add_relationship g s l t) = insert (s, take (REL_LEN - 1) l, t) (trip g)"
proof -
  obtain S g1 where g1: "get_or_create_entity g s = (S, g1)"
    by (cases "get_or_create_entity g s")
  obtain T g2 where g2: "get_or_create_entity g1 t = (T, g2)"
    by (cases "get_or_create_entity g1 t")
  have w1: "wf_graph g1" and S1: "S < length (heap g1)"
    using wf_get_or_create_entity[OF assms(1), of s] g1 by simp_all
  have w2: "wf_graph g2" and T: "T < length (heap g2)"
    using wf_get_or_create_entity[OF w1, of t] g2 by simp_all
  have S: "S < length (heap g2)"
    using S1 get_or_create_entity_grows[of g1 t] g2 by simp
  have nS1: "name (heap g1 ! S) = s" using get_or_create_entity_name[OF assms(2), of g] g1 by simp
  have nS: "name (heap g2 ! S) = s"
    using get_or_create_entity_nth[OF S1, of t] g2 nS1 by simp
  have nT: "name (heap g2 ! T) = t" using get_or_create_entity_name[OF assms(3), of g1] g2 by simp
  have t2: "trip g2 = trip g"
    using trip_get_or_create_entity[OF assms(1), of s] trip_get_or_create_entity[OF w1, of t] g1 g2
    by simp
  let ?R = "\<lparr>rel = take (REL_LEN - 1) l, target = T\<rparr>"
  let ?h = "(heap g2)[S := (heap g2 ! S)\<lparr>relations := ?R # relations (heap g2 ! S)\<rparr>]"
  have eq: "add_relationship g s l t = g2\<lparr>heap := ?h\<rparr>"
    by (simp add: add_relationship_def g1 g2 Let_def)
  let ?g' = "g2\<lparr>heap := ?h\<rparr>"
  have len': "length (heap ?g') = length (heap g2)" by simp
  have nm: "\<And>q. name (heap ?g' ! q) = name (heap g2 ! q)"
  proof -
    fix q show "name (heap ?g' ! q) = name (heap g2 ! q)"
      using S by (cases "q = S") simp_all
  qed
  have rl: "\<And>q. q \<noteq> S \<Longrightarrow> relations (heap ?g' ! q) = relations (heap g2 ! q)" by simp
  have rS: "relations (heap ?g' ! S) = ?R # relations (heap g2 ! S)" using S by simp
  have tR: "target ?R = T" "rel ?R = take (REL_LEN - 1) l" by simp_all
  have "trip ?g' = insert (s, take (REL_LEN - 1) l, t) (trip g2)"
  proof (rule set_eqI)
    fix x
    show "x \<in> trip ?g' \<longleftrightarrow> x \<in> insert (s, take (REL_LEN - 1) l, t) (trip g2)"
    proof
      assume "x \<in> trip ?g'"
      then obtain p r where p: "p < length (heap ?g')"
        and r: "r \<in> set (relations (heap ?g' ! p))"
        and x: "x = (name (heap ?g' ! p), rel r, name (heap ?g' ! target r))"
        by (rule tripE)
      show "x \<in> insert (s, take (REL_LEN - 1) l, t) (trip g2)"
      proof (cases "p = S \<and> r = ?R")
        case True
        then have "x = (s, take (REL_LEN - 1) l, t)"
          unfolding x nm using nS nT tR by simp
        then show ?thesis by simp
      next
        case False
        have r2: "r \<in> set (relations (heap g2 ! p))"
        proof (cases "p = S")
          case True
          with False r rS show ?thesis by auto
        next
          case False
          with r rl show ?thesis by simp
        qed
        have x2: "x = (name (heap g2 ! p), rel r, name (heap g2 ! target r))"
          unfolding x nm ..
        have p2: "p < length (heap g2)" using p len' by simp
        from p2 r2 x2 have "x \<in> trip g2" by (rule tripI)
        then show ?thesis by simp
      qed
    next
      assume "x \<in> insert (s, take (REL_LEN - 1) l, t) (trip g2)"
      then consider "x = (s, take (REL_LEN - 1) l, t)" | "x \<in> trip g2" by auto
      then show "x \<in> trip ?g'"
      proof cases
        case 1
        have x': "x = (name (heap ?g' ! S), rel ?R, name (heap ?g' ! target ?R))"
          unfolding nm tR using 1 nS nT by simp
        have r': "?R \<in> set (relations (heap ?g' ! S))" unfolding rS by simp
        have p': "S < length (heap ?g')" using S len' by simp
        from p' r' x' show ?thesis by (rule tripI)
      next
        case 2
        then obtain p r where p: "p < length (heap g2)"
          and r: "r \<in> set (relations (heap g2 ! p))"
          and x: "x = (name (heap g2 ! p), rel r, name (heap g2 ! target r))"
          by (rule tripE)
        have r': "r \<in> set (relations (heap ?g' ! p))"
        proof (cases "p = S")
          case True
          with r rS show ?thesis by simp
        next
          case False
          with r rl show ?thesis by simp
        qed
        have x': "x = (name (heap ?g' ! p), rel r, name (heap ?g' ! target r))"
          unfolding nm using x .
        have p': "p < length (heap ?g')" using p len' by simp
        from p' r' x' show ?thesis by (rule tripI)
      qed
    qed
  qed
  then show ?thesis by (simp add: eq t2)
qed

lemma add_triples_set:
  assumes "wf_graph g" "\<forall>x \<in> set ts. triple_ok x"
  shows "wf_graph (add_triples ts g) \<and> trip (add_triples ts g) = trip g \<union> set ts"
  using assms
proof (induction ts arbitrary: g)
  case Nil
  then show ?case by (simp add: add_triples_def)
next
  case (Cons x ts)
  obtain s l t where x: "x = (s, l, t)" by (cases x)
  have ok: "field_ok s" "field_ok l" "field_ok t"
    using Cons.prems(2) x by (simp_all add: triple_ok_def)
  then have len: "length s \<le> NAME_LEN - 1" "length t \<le> NAME_LEN - 1"
    and l: "take (REL_LEN - 1) l = l"
    by (simp_all add: field_ok_def NAME_LEN_def REL_LEN_def)
  let ?g = "add_relationship g s l t"
  have w: "wf_graph ?g" using Cons.prems(1) by (rule wf_add_relationship)
  have t: "trip ?g = insert x (trip g)"
    using trip_add_relationship[OF Cons.prems(1) len, of l] l x by simp
  have rest: "\<forall>x \<in> set ts. triple_ok x" using Cons.prems(2) by simp
  have a: "add_triples (x # ts) g = add_triples ts ?g" by (simp add: add_triples_def x)
  show ?case unfolding a using Cons.IH[OF w rest] t by auto
qed

text \<open>
  The round trip for any graph whose edges carry fields a line can hold unchanged.
\<close>

lemma export_import_roundtrip_general:
  assumes "\<forall>x \<in> set (edge_triples g). triple_ok x"
  shows "(case load_from_file empty_graph (Some (save_to_file g)) of
            (g', rep) \<Rightarrow>
              set (edge_triples g') = set (edge_triples g) \<and>
              rep = Some \<lparr>loaded = length (edge_triples g), skipped = 0\<rparr>)"
proof -
  let ?ts = "edge_triples g"
  have l: "load_loop empty_graph (save_to_file g) 0 0
             = (add_triples ?ts empty_graph, \<lparr>loaded = 0 + length ?ts, skipped = 0\<rparr>)"
    unfolding save_to_file_lines using assms by (rule load_loop_lines)
  have a: "wf_graph (add_triples ?ts empty_graph)"
    "trip (add_triples ?ts empty_graph) = trip empty_graph \<union> set ?ts"
    using add_triples_set[OF wf_empty_graph assms] by simp_all
  have "trip empty_graph = {}" by (simp add: trip_def empty_graph_def)
  then have "set (edge_triples (add_triples ?ts empty_graph)) = set ?ts"
    using a edge_triples_set[OF a(1)] by simp
  then show ?thesis by (simp add: load_from_file_def l)
qed

text \<open>
  The claim as stated fails for a source name that begins with \<^verbatim>\<open>#\<close>: no name or label
  holds the delimiter, the export writes the line \<^verbatim>\<open>#x|r|y\<close>, and the import skips it as
  a comment.
\<close>

definition hash_sign_graph :: graph where
  "hash_sign_graph = add_relationship empty_graph ''#x'' ''r'' ''y''"

theorem export_import_hash_sign_counterexample:
  "edge_triples hash_sign_graph = [(''#x'', ''r'', ''y'')] \<and>
   CHR ''|'' \<notin> set (''#x'' @ ''r'' @ ''y'') \<and>
   save_to_file hash_sign_graph = ''#x|r|y'' @ [CHR 0x0A] \<and>
   edge_triples (fst (load_from_file empty_graph (Some (save_to_file hash_sign_graph)))) = []"
  by code_simp

lemma squeeze_go_idem:
  "squeeze_go False (squeeze_go b z) = squeeze_go b z \<and>
   squeeze_go True (squeeze_go True z) = squeeze_go True z"
proof (induction z arbitrary: b)
  case Nil
  show ?case by simp
next
  case (Cons c r)
  show ?case using Cons.IH[of True] Cons.IH[of False] by (cases b) auto
qed

lemma squeeze_go_length: "length (squeeze_go b z) \<le> length z"
  by (induction b z rule: squeeze_go.induct) (auto simp: le_SucI)

lemma squeeze_go_set: "set (squeeze_go b z) \<subseteq> insert CHR '' '' (set z)"
  by (induction b z rule: squeeze_go.induct) auto

lemma trim_length: "length (trim z) \<le> length z"
proof -
  have "length (trim z) \<le> length (dropWhile isspace z)"
    unfolding trim_eq using length_dropWhile_le[of isspace "rev (dropWhile isspace z)"] by simp
  also have "\<dots> \<le> length z" by (rule length_dropWhile_le)
  finally show ?thesis .
qed

lemma trim_set: "set (trim z) \<subseteq> set z"
  unfolding trim_eq by (auto dest!: set_dropWhileD)

lemma normalize_idem:
  "squeeze_spaces (trim (squeeze_spaces (trim z))) = squeeze_spaces (trim z)"
proof (cases "trim z = []")
  case True
  have "trim [] = []" by (simp add: trim_eq)
  then show ?thesis using True by (simp add: squeeze_spaces_def)
next
  case False
  let ?y = "squeeze_spaces (trim z)"
  obtain c r where cr: "trim z = c # r" using False by (cases "trim z") auto
  have nc: "\<not> isspace c" using trim_hd_last(1)[OF False] cr by simp
  then have y: "?y = c # squeeze_go False r" by (simp add: cr squeeze_spaces_def)
  have "last ?y = last (trim z)"
    unfolding squeeze_spaces_def using False trim_hd_last(2)[OF False] by (rule squeeze_go_last)
  then have "\<not> isspace (last ?y)" using trim_hd_last(2)[OF False] by simp
  moreover have "?y \<noteq> []" "\<not> isspace (hd ?y)" using y nc by simp_all
  ultimately have "trim ?y = ?y" by (intro trim_id)
  then show ?thesis using squeeze_go_idem[of False "trim z"] by (simp add: squeeze_spaces_def)
qed

text \<open>
  What every name and label of an edge satisfies in a graph the program builds: at most
  127 bytes, no NUL byte, and unchanged by trimming and squeezing.
\<close>

definition clean :: "string \<Rightarrow> bool" where
  "clean x \<longleftrightarrow> length x \<le> 127 \<and> CHR 0x00 \<notin> set x \<and> squeeze_spaces (trim x) = x"

lemma clean_normalize:
  assumes "length y \<le> 127" "CHR 0x00 \<notin> set y"
  shows "clean (squeeze_spaces (trim y))"
proof -
  have "length (squeeze_spaces (trim y)) \<le> length y"
    unfolding squeeze_spaces_def
    using squeeze_go_length[of False "trim y"] trim_length[of y] by simp
  moreover have "set (squeeze_spaces (trim y)) \<subseteq> insert CHR '' '' (set y)"
    unfolding squeeze_spaces_def
    using squeeze_go_set[of False "trim y"] trim_set[of y] by auto
  ultimately show ?thesis using assms by (auto simp: clean_def normalize_idem)
qed

lemma parse_relation_line_clean:
  assumes "parse_relation_line line = Some (s, l, t)" "CHR 0x00 \<notin> set line"
  shows "clean s \<and> clean l \<and> clean t"
proof -
  have k: "\<And>y. length y \<le> 127 \<Longrightarrow> set y \<subseteq> set line \<Longrightarrow> clean (squeeze_spaces (trim y))"
    using assms(2) by (intro clean_normalize) auto
  have sub: "\<And>n m. set (take n (drop m line)) \<subseteq> set line" "\<And>n. set (take n line) \<subseteq> set line"
    "\<And>m. set (drop m line) \<subseteq> set line"
    by (meson in_set_dropD in_set_takeD subsetI)+
  obtain p1 d where p1: "strchr line CHR ''|'' = Some p1"
    and d: "strchr (drop (p1 + 1) line) CHR ''|'' = Some d"
    using assms(1) unfolding parse_relation_line_def by (auto split: option.splits)
  define L3 where "L3 = length (drop (p1 + 1 + d + 1) line)"
  define n1 where "n1 = (if p1 \<ge> NAME_LEN then NAME_LEN - 1 else p1)"
  define n2 where "n2 = (if p1 + 1 + d - (p1 + 1) \<ge> REL_LEN then REL_LEN - 1
                         else p1 + 1 + d - (p1 + 1))"
  define n3 where "n3 = (if L3 \<ge> NAME_LEN then NAME_LEN - 1 else L3)"
  have n: "n1 \<le> 127" "n2 \<le> 127" "n3 \<le> 127"
    by (simp_all add: n1_def n2_def n3_def NAME_LEN_def REL_LEN_def)
  have "Some (s, l, t) = Some (squeeze_spaces (trim (take n1 line)),
          squeeze_spaces (trim (take n2 (drop (p1 + 1) line))),
          squeeze_spaces (trim (take n3 (drop (p1 + 1 + d + 1) line))))"
    using assms(1) unfolding parse_relation_line_def p1 d option.case Let_def
      L3_def[symmetric] n1_def[symmetric] n2_def[symmetric] n3_def[symmetric]
    by (simp split: if_splits)
  then have s: "s = squeeze_spaces (trim (take n1 line))"
    and l: "l = squeeze_spaces (trim (take n2 (drop (p1 + 1) line)))"
    and t: "t = squeeze_spaces (trim (take n3 (drop (p1 + 1 + d + 1) line)))"
    by simp_all
  show ?thesis unfolding s l t using n by (intro conjI k sub) simp_all
qed

text \<open>Every field of every edge is clean, in a well-formed graph.\<close>

definition edges_clean :: "graph \<Rightarrow> bool" where
  "edges_clean g \<longleftrightarrow> (\<forall>x \<in> trip g. case x of (s, l, t) \<Rightarrow> clean s \<and> clean l \<and> clean t)"

definition sound :: "graph \<Rightarrow> bool" where
  "sound g \<longleftrightarrow> wf_graph g \<and> edges_clean g"

lemma sound_empty_graph: "sound empty_graph"
proof -
  have "trip empty_graph = {}" by (simp add: trip_def empty_graph_def)
  then show ?thesis using wf_empty_graph by (simp add: sound_def edges_clean_def)
qed

lemma sound_add_relationship:
  assumes "sound g" "clean s" "clean l" "clean t"
  shows "sound (add_relationship g s l t)"
proof -
  have w: "wf_graph g" using assms(1) by (simp add: sound_def)
  have len: "length s \<le> NAME_LEN - 1" "length t \<le> NAME_LEN - 1" "take (REL_LEN - 1) l = l"
    using assms(2-4) by (simp_all add: clean_def NAME_LEN_def REL_LEN_def)
  have "trip (add_relationship g s l t) = insert (s, l, t) (trip g)"
    using trip_add_relationship[OF w len(1,2), of l] len(3) by simp
  then have "edges_clean (add_relationship g s l t)"
    using assms by (simp add: edges_clean_def sound_def)
  then show ?thesis using wf_add_relationship[OF w] by (simp add: sound_def)
qed

lemma sound_create_entity:
  assumes "sound g"
  shows "sound (snd (create_entity g nm))"
  using assms wf_create_entity[of g nm] trip_create_entity[of g nm]
  by (simp add: sound_def edges_clean_def)

lemma fgets_chunk_fst_length: "length (fst (fgets_chunk k s)) \<le> k"
  by (induction k s rule: fgets_chunk.induct) (auto split: prod.splits)

lemma strip_eol_props: "length (strip_eol buf) \<le> length buf" "CHR 0x00 \<notin> set (strip_eol buf)"
proof -
  show "length (strip_eol buf) \<le> length buf"
    unfolding strip_eol_def by (rule length_takeWhile_le)
  show "CHR 0x00 \<notin> set (strip_eol buf)"
    unfolding strip_eol_def by (auto dest: set_takeWhileD)
qed

lemma read_line_props:
  "length (fst (read_line n con)) \<le> n - 1" "CHR 0x00 \<notin> set (fst (read_line n con))"
proof -
  show "length (fst (read_line n con)) \<le> n - 1"
    using fgets_chunk_fst_length[of "n - 1" "pending con"]
      strip_eol_props(1)[of "fst (fgets_chunk (n - 1) (pending con))"]
    by (auto simp: read_line_def fgets_def split: prod.splits if_splits)
  show "CHR 0x00 \<notin> set (fst (read_line n con))"
    using strip_eol_props(2)
    by (auto simp: read_line_def fgets_def split: prod.splits if_splits option.splits)
qed

lemma clean_read_line:
  "n \<le> 128 \<Longrightarrow> clean (squeeze_spaces (trim (fst (read_line n con))))"
  using read_line_props[of n con] by (intro clean_normalize) auto

lemma sound_menu_add_relationship:
  assumes "sound g"
  shows "sound (fst (menu_add_relationship g con))"
proof -
  obtain s0 con1 where r1: "read_line NAME_LEN con = (s0, con1)" by (cases "read_line NAME_LEN con")
  obtain r0 con2 where r2: "read_line REL_LEN con1 = (r0, con2)" by (cases "read_line REL_LEN con1")
  obtain t0 con3 where r3: "read_line NAME_LEN con2 = (t0, con3)" by (cases "read_line NAME_LEN con2")
  have c: "clean (squeeze_spaces (trim s0))" "clean (squeeze_spaces (trim r0))"
    "clean (squeeze_spaces (trim t0))"
    using clean_read_line[of NAME_LEN con] clean_read_line[of REL_LEN con1]
      clean_read_line[of NAME_LEN con2] r1 r2 r3
    by (simp_all add: NAME_LEN_def REL_LEN_def)
  show ?thesis
    using assms sound_add_relationship[OF assms c]
    by (simp add: menu_add_relationship_def r1 r2 r3 Let_def)
qed

lemma sound_menu_add_entity:
  "sound g \<Longrightarrow> sound (fst (menu_add_entity g con))"
  using sound_create_entity[of g]
  by (auto simp: menu_add_entity_def Let_def split: prod.splits option.splits)

lemma sound_load_loop:
  "sound g \<Longrightarrow> sound (fst (load_loop g fp count bad))"
proof (induction g fp count bad rule: load_loop.induct)
  case (1 g fp count bad)
  show ?case
  proof (cases "fgets LINE_BUF fp")
    case (Pair ob r)
    show ?thesis
    proof (cases ob)
      case None
      with Pair "1.prems" show ?thesis by (subst load_loop.simps) simp
    next
      case (Some buf)
      note fg = Pair[unfolded Some]
      let ?line = "trim (strip_eol buf)"
      have nul: "CHR 0x00 \<notin> set ?line"
        using strip_eol_props(2)[of buf] trim_set[of "strip_eol buf"] by auto
      show ?thesis
      proof (cases "?line = []")
        case True
        with "1.IH"(1)[OF fg[symmetric] refl refl True "1.prems"] fg show ?thesis
          by (subst load_loop.simps) simp
      next
        case False
        note ne = this
        show ?thesis
        proof (cases "hd ?line = CHR ''#''")
          case True
          with "1.IH"(2)[OF fg[symmetric] refl refl ne True "1.prems"] fg ne show ?thesis
            by (subst load_loop.simps) simp
        next
          case False
          note nc = this
          show ?thesis
          proof (cases "parse_relation_line ?line")
            case None
            with "1.IH"(3)[OF fg[symmetric] refl refl ne nc None "1.prems"] fg ne nc show ?thesis
              by (subst load_loop.simps) simp
          next
            case (Some tr)
            obtain src rl tgt where tr: "tr = (src, rl, tgt)" by (cases tr)
            have c: "clean src \<and> clean rl \<and> clean tgt"
              using Some[unfolded tr] nul by (rule parse_relation_line_clean)
            have w: "sound (add_relationship g src rl tgt)"
              using "1.prems" c by (intro sound_add_relationship) simp_all
            from "1.IH"(4)[OF fg[symmetric] refl refl ne nc Some[unfolded tr] refl refl w]
            show ?thesis using fg ne nc Some tr
              by (subst load_loop.simps) simp
          qed
        qed
      qed
    qed
  qed
qed

lemma sound_load_from_file:
  assumes "sound g"
  shows "sound (fst (load_from_file g fl))"
proof (cases fl)
  case None
  with assms show ?thesis by (simp add: load_from_file_def)
next
  case (Some fp)
  from assms have "sound (fst (load_loop g fp 0 0))" by (rule sound_load_loop)
  with Some show ?thesis by (auto simp add: load_from_file_def split: prod.splits)
qed

lemma trip_same_structure:
  assumes "clear_marks g' = clear_marks g" "wf_graph g"
  shows "trip g' = trip g"
proof -
  have l: "length (heap g') = length (heap g)" by (rule clear_marks_eqD(3)[OF assms(1)])
  note nm = clear_marks_nth(1)[OF assms(1)]
  note rl = clear_marks_nth(2)[OF assms(1)]
  have tg: "\<And>p r. p < length (heap g) \<Longrightarrow> r \<in> set (relations (heap g ! p))
              \<Longrightarrow> target r < length (heap g)"
    using assms(2) by (auto simp: wf_graph_def)
  show ?thesis
  proof (rule set_eqI)
    fix x
    show "x \<in> trip g' \<longleftrightarrow> x \<in> trip g"
    proof
      assume "x \<in> trip g'"
      then obtain p r where p: "p < length (heap g')"
        and r: "r \<in> set (relations (heap g' ! p))"
        and x: "x = (name (heap g' ! p), rel r, name (heap g' ! target r))"
        by (rule tripE)
      have p2: "p < length (heap g)" using p l by simp
      have r2: "r \<in> set (relations (heap g ! p))" using r rl[OF p2] by simp
      have x2: "x = (name (heap g ! p), rel r, name (heap g ! target r))"
        using x nm[OF p2] nm[OF tg[OF p2 r2]] by simp
      from p2 r2 x2 show "x \<in> trip g" by (rule tripI)
    next
      assume "x \<in> trip g"
      then obtain p r where p: "p < length (heap g)"
        and r: "r \<in> set (relations (heap g ! p))"
        and x: "x = (name (heap g ! p), rel r, name (heap g ! target r))"
        by (rule tripE)
      have p2: "p < length (heap g')" using p l by simp
      have r2: "r \<in> set (relations (heap g' ! p))" using r rl[OF p] by simp
      have x2: "x = (name (heap g' ! p), rel r, name (heap g' ! target r))"
        using x nm[OF p] nm[OF tg[OF p r]] by simp
      from p2 r2 x2 show "x \<in> trip g'" by (rule tripI)
    qed
  qed
qed

lemma reachable_sound: "reachable g \<Longrightarrow> sound g"
proof (induction rule: reachable.induct)
  case start
  show ?case by (rule sound_empty_graph)
next
  case (entity g con)
  then show ?case by (intro sound_menu_add_entity)
next
  case (relationship g con)
  then show ?case by (intro sound_menu_add_relationship)
next
  case (imported g fl)
  then show ?case by (intro sound_load_from_file)
next
  case (queried g a b fz con r g' con')
  have w: "wf_graph g" using queried.IH by (simp add: sound_def)
  have s: "clear_marks g' = clear_marks g"
    using w queried.hyps(2) by (rule find_path_bfs_structure)
  have "wf_graph g'" using s w by (rule wf_graph_same_structure)
  moreover have "trip g' = trip g" using s w by (rule trip_same_structure)
  ultimately show ?case using queried.IH by (simp add: sound_def edges_clean_def)
qed

text \<open>A triple the relation file can carry, apart from what holds of every edge.\<close>

definition exportable :: "string \<times> string \<times> string \<Rightarrow> bool" where
  "exportable x = (case x of (s, l, t) \<Rightarrow>
      s \<noteq> [] \<and> l \<noteq> [] \<and> t \<noteq> [] \<and>
      CHR ''|'' \<notin> set s \<and> CHR ''|'' \<notin> set l \<and> CHR ''|'' \<notin> set t \<and>
      hd s \<noteq> CHR ''#'')"

text \<open>
  C6 (as amended). For every graph the program builds in which no name or label of an
  edge contains the delimiter or is empty, and no source name begins with \<^verbatim>\<open>#\<close>, the text
  \<open>save_to_file\<close> writes, imported by \<open>load_from_file\<close> into the empty index, gives the same
  set of (source, label, target) triples; every line is loaded and none is skipped.
\<close>

theorem export_import_roundtrip:
  assumes "reachable g" and "\<forall>x \<in> set (edge_triples g). exportable x"
  shows "(case load_from_file empty_graph (Some (save_to_file g)) of
            (g', rep) \<Rightarrow>
              set (edge_triples g') = set (edge_triples g) \<and>
              rep = Some \<lparr>loaded = length (edge_triples g), skipped = 0\<rparr>)"
proof -
  have s: "sound g" using assms(1) by (rule reachable_sound)
  then have e: "set (edge_triples g) = trip g" by (simp add: sound_def edge_triples_set)
  have "\<forall>x \<in> set (edge_triples g). triple_ok x"
  proof
    fix x assume x: "x \<in> set (edge_triples g)"
    obtain a l t where alt: "x = (a, l, t)" by (cases x)
    have "clean a \<and> clean l \<and> clean t"
      using s x e alt by (auto simp: sound_def edges_clean_def)
    moreover have "exportable (a, l, t)" using assms(2) x alt by simp
    ultimately show "triple_ok x"
      unfolding alt by (simp add: triple_ok_def field_ok_def clean_def exportable_def)
  qed
  then show ?thesis by (rule export_import_roundtrip_general)
qed

lemma reachable_example_graph: "reachable example_graph"
proof -
  let ?ts = "[(''Alice'', ''knows'', ''Bob''), (''Bob'', ''knows'', ''Carol''),
              (''Alice'', ''met'', ''Carol'')]"
  have "list_all triple_ok ?ts" by code_simp
  then have "\<forall>x \<in> set ?ts. triple_ok x" by (simp only: list_all_iff)
  then have "load_loop empty_graph (triple_lines ?ts) 0 0
               = (add_triples ?ts empty_graph, \<lparr>loaded = 0 + length ?ts, skipped = 0\<rparr>)"
    by (rule load_loop_lines)
  then have "fst (load_from_file empty_graph (Some (triple_lines ?ts))) = example_graph"
    by (simp add: load_from_file_def add_triples_def example_graph_def)
  moreover have "reachable (fst (load_from_file empty_graph (Some (triple_lines ?ts))))"
    by (intro reachable.imported reachable.start)
  ultimately show ?thesis by simp
qed

theorem export_import_roundtrip_witness:
  "reachable example_graph \<and> list_all exportable (edge_triples example_graph) \<and>
   (case load_from_file empty_graph (Some (save_to_file example_graph)) of
            (g', rep) \<Rightarrow>
              set (edge_triples g') = set (edge_triples example_graph) \<and>
              rep = Some \<lparr>loaded = length (edge_triples example_graph), skipped = 0\<rparr>)"
proof -
  have h: "list_all exportable (edge_triples example_graph)" by code_simp
  then have "\<forall>x \<in> set (edge_triples example_graph). exportable x"
    by (simp only: list_all_iff)
  from export_import_roundtrip[OF reachable_example_graph this] h reachable_example_graph
  show ?thesis by blast
qed

subsection \<open>The queue of the search\<close>

text \<open>
  A hub with 128 neighbours. The neighbours are named by two letters, \<^verbatim>\<open>aa\<close> to \<^verbatim>\<open>hp\<close>.
\<close>

definition leaf :: "nat \<Rightarrow> string" where
  "leaf i = [char_of (97 + i div 16), char_of (97 + i mod 16)]"

lemma leaf_inj: "i < 128 \<Longrightarrow> j < 128 \<Longrightarrow> leaf i = leaf j \<Longrightarrow> i = j"
proof -
  assume i: "i < 128" and j: "j < 128" and e: "leaf i = leaf j"
  have a: "(97 + i div 16) mod 256 = (97 + j div 16) mod 256"
    using e by (simp add: leaf_def char_of_eq_iff take_bit_eq_mod)
  have b: "(97 + i mod 16) mod 256 = (97 + j mod 16) mod 256"
    using e by (simp add: leaf_def char_of_eq_iff take_bit_eq_mod)
  have "i div 16 = j div 16" using a i j by simp
  moreover have "i mod 16 = j mod 16" using b by simp
  ultimately show "i = j" by (metis div_mult_mod_eq)
qed


lemma scan_relations_overflow:
  assumes "distinct (map target rs)"
    and "\<forall>r \<in> set rs. target r < length es \<and> \<not> visited (es ! target r)"
    and "cap < length Q + length rs" and "length Q \<le> cap"
  shows "scan_relations cap cur rs es Q = Inl QueueOverflow"
  using assms
proof (induction rs arbitrary: es Q)
  case Nil
  then show ?case by simp
next
  case (Cons r rs)
  let ?es = "es[target r := (es ! target r)\<lparr>visited := True, prev := Some cur\<rparr>]"
  show ?case
  proof (cases "length Q \<ge> cap")
    case True
    with Cons.prems(2) show ?thesis by simp
  next
    case False
    have d: "distinct (map target rs)" using Cons.prems(1) by simp
    have f: "\<forall>x \<in> set rs. target x < length ?es \<and> \<not> visited (?es ! target x)"
    proof
      fix x assume x: "x \<in> set rs"
      then have "target x \<in> set (map target rs)" by simp
      moreover have "target r \<notin> set (map target rs)" using Cons.prems(1) by simp
      ultimately have "target x \<noteq> target r" by metis
      then show "target x < length ?es \<and> \<not> visited (?es ! target x)"
        using Cons.prems(2) x by simp
    qed
    have c: "cap < length (Q @ [target r]) + length rs" using Cons.prems(3) by simp
    have q: "length (Q @ [target r]) \<le> cap" using False by simp
    from Cons.IH[OF d f c q] False Cons.prems(2) show ?thesis by (simp add: Let_def)
  qed
qed

text \<open>Every allocated entity is linked into the bucket of its own name.\<close>

definition indexed :: "graph \<Rightarrow> bool" where
  "indexed g \<longleftrightarrow> (\<forall>p < length (heap g). p \<in> set (gHash g (hash_index (name (heap g ! p)))))"

lemma indexed_empty_graph: "indexed empty_graph"
  by (simp add: indexed_def empty_graph_def)

lemma indexed_create_entity:
  assumes "indexed g"
  shows "indexed (snd (create_entity g nm))"
proof -
  let ?g = "snd (create_entity g nm)"
  let ?e = "\<lparr>name = take (NAME_LEN - 1) nm, relations = [], visited = False, prev = None\<rparr>"
  have h: "heap ?g = heap g @ [?e]" by (rule create_entity_heap(1))
  have b: "gHash ?g = (gHash g)(hash_index (name ?e) := length (heap g) # gHash g (hash_index (name ?e)))"
    by (simp add: create_entity_def Let_def)
  show ?thesis
    unfolding indexed_def
  proof (intro allI impI)
    fix p assume p: "p < length (heap ?g)"
    show "p \<in> set (gHash ?g (hash_index (name (heap ?g ! p))))"
    proof (cases "p < length (heap g)")
      case True
      then have e: "heap ?g ! p = heap g ! p" by (simp add: h nth_append)
      have "p \<in> set (gHash g (hash_index (name (heap g ! p))))"
        using assms True by (simp add: indexed_def)
      then show ?thesis unfolding b e by (auto simp: fun_upd_def)
    next
      case False
      with p have "p = length (heap g)" by (simp add: h)
      then show ?thesis unfolding b by (simp add: h)
    qed
  qed
qed

lemma indexed_get_or_create_entity:
  "indexed g \<Longrightarrow> indexed (snd (get_or_create_entity g nm))"
  by (simp add: get_or_create_entity_def indexed_create_entity split: option.splits)

lemma indexed_add_relationship:
  assumes "indexed g"
  shows "indexed (add_relationship g src rl tgt)"
proof -
  obtain S g1 where g1: "get_or_create_entity g src = (S, g1)"
    by (cases "get_or_create_entity g src")
  obtain T g2 where g2: "get_or_create_entity g1 tgt = (T, g2)"
    by (cases "get_or_create_entity g1 tgt")
  have i2: "indexed g2"
    using indexed_get_or_create_entity[OF indexed_get_or_create_entity[OF assms, of src], of tgt]
      g1 g2 by simp
  let ?R = "\<lparr>rel = take (REL_LEN - 1) rl, target = T\<rparr>"
  let ?h = "(heap g2)[S := (heap g2 ! S)\<lparr>relations := ?R # relations (heap g2 ! S)\<rparr>]"
  have eq: "add_relationship g src rl tgt = g2\<lparr>heap := ?h\<rparr>"
    by (simp add: add_relationship_def g1 g2 Let_def)
  have nm: "\<And>q. q < length (heap g2) \<Longrightarrow> name (?h ! q) = name (heap g2 ! q)"
  proof -
    fix q assume "q < length (heap g2)"
    then show "name (?h ! q) = name (heap g2 ! q)" by (cases "q = S") simp_all
  qed
  show ?thesis unfolding eq indexed_def using i2 nm by (simp add: indexed_def)
qed

lemma find_entity_exact_absent:
  assumes "wf_graph g" "nm \<notin> set (map name (heap g))"
  shows "find_entity_exact g nm = None"
proof -
  have "\<And>x. x \<in> set (gHash g (hash_index nm)) \<Longrightarrow> name (heap g ! x) \<noteq> nm"
  proof -
    fix x assume "x \<in> set (gHash g (hash_index nm))"
    then have "x \<in> set (all_entities g)" by (rule bucket_subset)
    then have "x < length (heap g)" using assms(1) by (simp add: wf_graph_def)
    then have "name (heap g ! x) \<in> set (map name (heap g))" by simp
    with assms(2) show "name (heap g ! x) \<noteq> nm" by metis
  qed
  then show ?thesis unfolding find_entity_exact_def by (auto simp: find_None_iff)
qed

lemma find_entity_exact_present:
  assumes "wf_graph g" "indexed g" "distinct (map name (heap g))" "p < length (heap g)"
  shows "find_entity_exact g (name (heap g ! p)) = Some p"
proof -
  let ?nm = "name (heap g ! p)"
  have "p \<in> set (gHash g (hash_index ?nm))" using assms(2,4) by (simp add: indexed_def)
  then have "find_entity_exact g ?nm \<noteq> None"
    unfolding find_entity_exact_def by (auto simp: find_None_iff)
  then obtain q where q: "find_entity_exact g ?nm = Some q" by auto
  have "q \<in> set (all_entities g)" "name (heap g ! q) = ?nm"
    using find_entity_exact_SomeD[OF q] by simp_all
  then have ql: "q < length (heap g)" using assms(1) by (simp add: wf_graph_def)
  have "map name (heap g) ! q = map name (heap g) ! p"
    using ql assms(4) \<open>name (heap g ! q) = ?nm\<close> by simp
  then have "q = p"
    using assms(3,4) ql nth_eq_iff_index_eq[of "map name (heap g)" q p] by simp
  with q show ?thesis by simp
qed

text \<open>
  The queue overflows as soon as the source has 128 distinct neighbours other than the
  source itself and the target, since the capacity of 128 is only doubled between two
  dequeues.
\<close>

lemma find_path_bfs_overflow:
  assumes "wf_graph g"
    and "resolve g a fz con = Inr (Some s, con1)"
    and "resolve g b fz con1 = Inr (Some t, con2)"
    and "s \<noteq> t" "s < length (heap g)"
    and "distinct (map target (relations (heap g ! s)))"
    and "\<forall>r \<in> set (relations (heap g ! s)). target r \<noteq> s"
    and "QUEUE_INIT \<le> length (relations (heap g ! s))"
  shows "find_path_bfs g a b fz con = Inl QueueOverflow"
proof -
  let ?es = "start_marks g s"
  have m: "heap (reset_bfs_marks g) = map clear_entity (heap g)"
    using reset_bfs_marks_clears[OF assms(1)] by (simp add: clear_marks_def)
  have len: "length ?es = length (heap g)" by (simp add: start_marks_def m)
  have rs: "relations (?es ! s) = relations (heap g ! s)"
    using assms(5) by (simp add: start_marks_def m)
  have unv: "\<forall>r \<in> set (relations (heap g ! s)). target r < length ?es \<and> \<not> visited (?es ! target r)"
  proof
    fix r assume r: "r \<in> set (relations (heap g ! s))"
    then have l: "target r < length (heap g)" using assms(1,5) by (auto simp: wf_graph_def)
    moreover have "target r \<noteq> s" using assms(7) r by simp
    ultimately show "target r < length ?es \<and> \<not> visited (?es ! target r)"
      by (simp add: start_marks_def m)
  qed
  have "scan_relations QUEUE_INIT s (relations (heap g ! s)) ?es [s] = Inl QueueOverflow"
    using assms(6) unv
  proof (rule scan_relations_overflow)
    show "QUEUE_INIT < length [s] + length (relations (heap g ! s))" using assms(8) by simp
    show "length [s] \<le> QUEUE_INIT" by (simp add: QUEUE_INIT_def)
  qed
  then have "bfs_loop t ?es [s] 0 QUEUE_INIT = Inl QueueOverflow"
    using assms(4) by (subst bfs_loop.simps) (simp add: rs QUEUE_INIT_def)
  then show ?thesis
    using find_path_bfs_resolved[OF assms(2,3)] by simp
qed

lemma isspace_code: "isspace c \<longleftrightarrow> (of_char c :: nat) = 32 \<or> (9 \<le> (of_char c :: nat) \<and> (of_char c :: nat) \<le> 13)"
proof -
  have "c = CHR '' '' \<longleftrightarrow> (of_char c :: nat) = of_char CHR '' ''"
    by (simp only: of_char_eq_iff)
  then show ?thesis by (simp add: isspace_def)
qed

lemma char_eq_code: "c = d \<longleftrightarrow> (of_char c :: nat) = of_char d"
  by (simp only: of_char_eq_iff)

lemma leaf_chars:
  assumes "c \<in> set (leaf i)" "i < 128"
  shows "97 \<le> (of_char c :: nat) \<and> (of_char c :: nat) \<le> 122"
proof -
  have "i div 16 < 8" using assms(2) by simp
  then have a: "(97 + i div 16) mod 256 = 97 + i div 16" by simp
  have b: "(97 + i mod 16) mod 256 = 97 + i mod 16" by simp
  show ?thesis using assms(1) a b \<open>i div 16 < 8\<close> by (auto simp: leaf_def of_char_of)
qed

lemma squeeze_go_nospace: "\<forall>c \<in> set x. \<not> isspace c \<Longrightarrow> squeeze_go b x = x"
  by (induction b x rule: squeeze_go.induct) auto

lemma normalize_nospace:
  assumes "\<forall>c \<in> set x. \<not> isspace c"
  shows "squeeze_spaces (trim x) = x"
proof (cases "x = []")
  case True
  then show ?thesis by (simp add: trim_eq squeeze_spaces_def)
next
  case False
  then have "\<not> isspace (hd x)" "\<not> isspace (last x)" using assms by simp_all
  with False have "trim x = x" by (intro trim_id)
  then show ?thesis using assms by (simp add: squeeze_spaces_def squeeze_go_nospace)
qed

lemma field_ok_letters:
  assumes "x \<noteq> []" "length x \<le> 127" "\<forall>c \<in> set x. 97 \<le> (of_char c :: nat) \<and> (of_char c :: nat) \<le> 122"
  shows "field_ok x"
proof -
  have "\<forall>c \<in> set x. \<not> isspace c" using assms(3) by (auto simp: isspace_code)
  then have n: "squeeze_spaces (trim x) = x" by (rule normalize_nospace)
  have "CHR ''|'' \<notin> set x" "CHR 0x00 \<notin> set x" using assms(3) by (auto simp: char_eq_code)
  then show ?thesis using assms(1,2) n by (simp add: field_ok_def)
qed

lemma field_ok_leaf: "i < 128 \<Longrightarrow> field_ok (leaf i)"
  using leaf_chars[of _ i] by (intro field_ok_letters) (auto simp: leaf_def)

lemma field_ok_hub: "field_ok ''hub''" "field_ok ''r''"
  by (rule field_ok_letters; simp)+

text \<open>The relation file of the hub: the lines \<^verbatim>\<open>hub|r|aa\<close>, \<^verbatim>\<open>hub|r|ab\<close>, and so on.\<close>

definition star_triples :: "nat \<Rightarrow> (string \<times> string \<times> string) list" where
  "star_triples n = map (\<lambda>i. (''hub'', ''r'', leaf i)) [0..<n]"

definition star :: "nat \<Rightarrow> graph" where
  "star n = add_triples (star_triples n) empty_graph"

definition star_graph :: graph where
  "star_graph = star 128"

lemma star_Suc: "star (Suc n) = add_relationship (star n) ''hub'' ''r'' (leaf n)"
  by (simp add: star_def star_triples_def add_triples_def)

lemma leaf_not_hub: "leaf i \<noteq> ''hub''"
  by (simp add: leaf_def)

lemma star_names_distinct:
  assumes "n \<le> 128"
  shows "distinct (''hub'' # map leaf [0..<n])"
proof -
  have "inj_on leaf (set [0..<n])"
    using assms by (intro inj_onI leaf_inj) auto
  then have "distinct (map leaf [0..<n])" by (simp add: distinct_map)
  moreover have "''hub'' \<notin> set (map leaf [0..<n])" using leaf_not_hub by (metis imageE list.set_map)
  ultimately show ?thesis by simp
qed

lemma star_name_fresh:
  assumes "n < 128"
  shows "leaf n \<notin> set (''hub'' # map leaf [0..<n])"
proof
  assume "leaf n \<in> set (''hub'' # map leaf [0..<n])"
  then obtain i where "i < n" "leaf n = leaf i" using leaf_not_hub[of n] by auto
  then show False using leaf_inj[of n i] assms by simp
qed

lemma add_relationship_fresh_target:
  assumes "wf_graph g" "find_entity_exact g src = Some S" "find_entity_exact g tgt = None"
  shows "heap (add_relationship g src rl tgt) =
     (heap g @ [\<lparr>name = take (NAME_LEN - 1) tgt, relations = [], visited = False, prev = None\<rparr>])
       [S := (heap g ! S)\<lparr>relations := \<lparr>rel = take (REL_LEN - 1) rl, target = length (heap g)\<rparr>
                                          # relations (heap g ! S)\<rparr>]"
proof -
  have S: "S < length (heap g)"
    using find_entity_exact_SomeD(1)[OF assms(2)] assms(1) by (simp add: wf_graph_def)
  have g1: "get_or_create_entity g src = (S, g)" using assms(2) by (simp add: get_or_create_entity_def)
  have g2: "get_or_create_entity g tgt = create_entity g tgt"
    using assms(3) by (simp add: get_or_create_entity_def)
  show ?thesis
    using S by (simp add: add_relationship_def g1 g2 create_entity_def Let_def nth_append)
qed

lemma star_shape:
  "1 \<le> n \<Longrightarrow> n \<le> 128 \<Longrightarrow>
     wf_graph (star n) \<and> indexed (star n) \<and>
     map name (heap (star n)) = ''hub'' # map leaf [0..<n] \<and>
     relations (heap (star n) ! 0) = map (\<lambda>i. \<lparr>rel = ''r'', target = i\<rparr>) (rev [1..<Suc n])"
proof (induction n rule: nat_induct_at_least)
  case base
  let ?g1 = "snd (create_entity empty_graph ''hub'')"
  have w1: "wf_graph ?g1" using wf_empty_graph by (rule wf_create_entity)
  have h1: "heap ?g1 = [\<lparr>name = ''hub'', relations = [], visited = False, prev = None\<rparr>]"
    by (simp add: create_entity_heap empty_graph_def NAME_LEN_def)
  have f0: "find_entity_exact empty_graph ''hub'' = None"
    by (simp add: find_entity_exact_def empty_graph_def)
  have f1: "find_entity_exact ?g1 (leaf 0) = None"
    using w1 by (rule find_entity_exact_absent) (simp add: h1 leaf_def)
  have s1: "star 1 = add_relationship empty_graph ''hub'' ''r'' (leaf 0)"
    using star_Suc[of 0] by (simp add: star_def star_triples_def add_triples_def)
  have "heap (star 1) =
      [\<lparr>name = ''hub'', relations = [\<lparr>rel = ''r'', target = 1\<rparr>], visited = False, prev = None\<rparr>,
       \<lparr>name = leaf 0, relations = [], visited = False, prev = None\<rparr>]"
    unfolding s1 add_relationship_def get_or_create_entity_def f0 option.case
    by (simp add: f1[unfolded create_entity_def Let_def, simplified]
        create_entity_def Let_def empty_graph_def NAME_LEN_def REL_LEN_def leaf_def
        find_entity_exact_def split: prod.splits)
  then have "map name (heap (star 1)) = ''hub'' # map leaf [0..<1] \<and>
     relations (heap (star 1) ! 0) = map (\<lambda>i. \<lparr>rel = ''r'', target = i\<rparr>) (rev [1..<Suc 1])"
    by simp
  moreover have "wf_graph (star 1)" unfolding s1 using wf_empty_graph by (rule wf_add_relationship)
  moreover have "indexed (star 1)"
    unfolding s1 using indexed_empty_graph by (rule indexed_add_relationship)
  ultimately show ?case by simp
next
  case (Suc n)
  then have n: "n < 128" "1 \<le> n" by simp_all
  have ih: "wf_graph (star n)" "indexed (star n)"
    "map name (heap (star n)) = ''hub'' # map leaf [0..<n]"
    "relations (heap (star n) ! 0) = map (\<lambda>i. \<lparr>rel = ''r'', target = i\<rparr>) (rev [1..<Suc n])"
    using Suc.IH n by simp_all
  have len: "length (heap (star n)) = Suc n" using ih(3) by (metis length_Cons length_map length_upt diff_zero)
  have d: "distinct (map name (heap (star n)))"
    unfolding ih(3) using n by (intro star_names_distinct) simp
  have n0: "name (heap (star n) ! 0) = ''hub''"
    using ih(3) len by (metis nth_Cons_0 nth_map zero_less_Suc)
  have fh: "find_entity_exact (star n) ''hub'' = Some 0"
    using find_entity_exact_present[OF ih(1,2) d, of 0] len n0 by simp
  have fl: "find_entity_exact (star n) (leaf n) = None"
    using ih(1) unfolding ih(3)[symmetric, THEN arg_cong, of set]
    by (rule find_entity_exact_absent) (use star_name_fresh[OF n(1)] ih(3) in simp)
  have h: "heap (star (Suc n)) =
     (heap (star n) @ [\<lparr>name = take (NAME_LEN - 1) (leaf n), relations = [], visited = False, prev = None\<rparr>])
       [0 := (heap (star n) ! 0)\<lparr>relations := \<lparr>rel = take (REL_LEN - 1) ''r'', target = length (heap (star n))\<rparr>
                                          # relations (heap (star n) ! 0)\<rparr>]"
    unfolding star_Suc using ih(1) fh fl by (rule add_relationship_fresh_target)
  have nm: "map name (heap (star (Suc n))) = ''hub'' # map leaf [0..<Suc n]"
  proof -
    have "map name (heap (star (Suc n)))
        = (map name (heap (star n)) @ [leaf n])[0 := name (heap (star n) ! 0)]"
      unfolding h by (simp add: map_update NAME_LEN_def leaf_def)
    also have "\<dots> = ''hub'' # map leaf [0..<n] @ [leaf n]"
      unfolding ih(3) n0 by simp
    finally show ?thesis by simp
  qed
  have tg: "relations (heap (star (Suc n)) ! 0)
      = map (\<lambda>i. \<lparr>rel = ''r'', target = i\<rparr>) (rev [1..<Suc (Suc n)])"
    unfolding h using len ih(4) by (simp add: nth_append REL_LEN_def)
  have "wf_graph (star (Suc n))" unfolding star_Suc using ih(1) by (rule wf_add_relationship)
  moreover have "indexed (star (Suc n))"
    unfolding star_Suc using ih(2) by (rule indexed_add_relationship)
  ultimately show ?case using nm tg by simp
qed

lemma reachable_star_graph: "reachable star_graph"
proof -
  have ok: "\<forall>x \<in> set (star_triples 128). triple_ok x"
    using field_ok_hub field_ok_leaf
    by (auto simp: star_triples_def triple_ok_def)
  have "load_loop empty_graph (triple_lines (star_triples 128)) 0 0
          = (add_triples (star_triples 128) empty_graph,
             \<lparr>loaded = 0 + length (star_triples 128), skipped = 0\<rparr>)"
    using ok by (rule load_loop_lines)
  then have "fst (load_from_file empty_graph (Some (triple_lines (star_triples 128)))) = star_graph"
    by (simp add: load_from_file_def star_graph_def star_def)
  moreover have "reachable (fst (load_from_file empty_graph (Some (triple_lines (star_triples 128)))))"
    by (intro reachable.imported reachable.start)
  ultimately show ?thesis by simp
qed

text \<open>
  C1 (the code departs from the claim). The graph imported from the 128 lines
  \<^verbatim>\<open>hub|r|aa\<close> to \<^verbatim>\<open>hub|r|hp\<close> has the edge from \<^verbatim>\<open>hub\<close> to \<^verbatim>\<open>aa\<close>, so the two-node path is
  the shortest one. The query for it writes the 129th entity past the end of the queue of
  128 slots, which is only enlarged between two dequeues: no path is returned.
\<close>

theorem find_path_bfs_queue_overflow:
  "reachable star_graph \<and>
   (''hub'', ''r'', leaf 0) \<in> set (edge_triples star_graph) \<and>
   find_path_bfs star_graph ''hub'' (leaf 0) False quiet = Inl QueueOverflow"
proof -
  have sh: "wf_graph star_graph" "indexed star_graph"
    "map name (heap star_graph) = ''hub'' # map leaf [0..<128]"
    "relations (heap star_graph ! 0) = map (\<lambda>i. \<lparr>rel = ''r'', target = i\<rparr>) (rev [1..<Suc 128])"
    using star_shape[of 128] by (simp_all add: star_graph_def)
  have tg: "map target (relations (heap star_graph ! 0)) = rev [1..<Suc 128]"
    unfolding sh(4) by (simp add: comp_def)
  have len: "length (heap star_graph) = 129"
    using sh(3) by (metis length_Cons length_map length_upt diff_zero eval_nat_numeral(3) Suc_eq_plus1 numeral_plus_one semiring_norm(5))
  have d: "distinct (map name (heap star_graph))"
    unfolding sh(3) by (intro star_names_distinct) simp
  have n0: "name (heap star_graph ! 0) = ''hub''"
    using arg_cong[OF sh(3), of "\<lambda>xs. xs ! 0"] len by simp
  have n1: "name (heap star_graph ! 1) = leaf 0"
    using arg_cong[OF sh(3), of "\<lambda>xs. xs ! 1"] len by simp
  have f0: "find_entity_exact star_graph ''hub'' = Some 0"
    using find_entity_exact_present[OF sh(1,2) d, of 0] len n0 by simp
  have f1: "find_entity_exact star_graph (leaf 0) = Some 1"
    using find_entity_exact_present[OF sh(1,2) d, of 1] len n1 by simp
  have r0: "resolve star_graph ''hub'' False quiet = Inr (Some 0, quiet)"
    by (simp add: resolve_def f0)
  have r1: "resolve star_graph (leaf 0) False quiet = Inr (Some 1, quiet)"
    by (simp add: resolve_def f1)
  have dt: "distinct (map target (relations (heap star_graph ! 0)))"
    unfolding tg by simp
  have t0: "\<forall>r \<in> set (relations (heap star_graph ! 0)). target r \<noteq> 0"
  proof
    fix r assume "r \<in> set (relations (heap star_graph ! 0))"
    then have "target r \<in> set (map target (relations (heap star_graph ! 0)))" by simp
    then show "target r \<noteq> 0" unfolding tg by simp
  qed
  have "length (map target (relations (heap star_graph ! 0))) = 128"
    unfolding tg by simp
  then have l: "QUEUE_INIT \<le> length (relations (heap star_graph ! 0))"
    by (simp add: QUEUE_INIT_def)
  have ov: "find_path_bfs star_graph ''hub'' (leaf 0) False quiet = Inl QueueOverflow"
    using sh(1) r0 r1 _ _ dt t0 l by (rule find_path_bfs_overflow) (simp_all add: len)
  have r: "\<lparr>rel = ''r'', target = 1\<rparr> \<in> set (relations (heap star_graph ! 0))"
    unfolding sh(4) by simp
  have e: "set (edge_triples star_graph) = trip star_graph"
    using sh(1) by (rule edge_triples_set)
  have "(''hub'', ''r'', leaf 0) \<in> trip star_graph"
    by (rule tripI[of 0 _ "\<lparr>rel = ''r'', target = 1\<rparr>"]) (use r len n0 n1 in simp_all)
  then have "(''hub'', ''r'', leaf 0) \<in> set (edge_triples star_graph)"
    using e by simp
  then show ?thesis using ov reachable_star_graph by simp
qed


subsection \<open>The search returns shortest paths\<close>

text \<open>The edges of the graph: \<open>u\<close> is allocated and one of its relations points to \<open>v\<close>.\<close>

definition edge :: "graph \<Rightarrow> nat \<Rightarrow> nat \<Rightarrow> bool" where
  "edge g u v \<longleftrightarrow> u < length (heap g) \<and> (\<exists>r \<in> set (relations (heap g ! u)). target r = v)"

text \<open>\<open>hops g s k v\<close>: there are \<open>k\<close> edges that lead from \<open>s\<close> to \<open>v\<close>.\<close>

inductive hops :: "graph \<Rightarrow> nat \<Rightarrow> nat \<Rightarrow> nat \<Rightarrow> bool" for g s where
  start: "hops g s 0 s"
| step: "hops g s k u \<Longrightarrow> edge g u v \<Longrightarrow> hops g s (Suc k) v"

text \<open>
  The invariant of the search. \<open>Q\<close> is the queue with its \<open>h\<close> dequeued entries, \<open>d\<close> the
  number of hops of each queued entity, and \<open>D\<close> the neighbours of the entity at the head
  that the scan has treated.
\<close>

definition bfs_inv ::
  "graph \<Rightarrow> nat \<Rightarrow> nat \<Rightarrow> (nat \<Rightarrow> nat) \<Rightarrow> Entity list \<Rightarrow> nat list \<Rightarrow> nat \<Rightarrow> nat set \<Rightarrow> bool" where
  "bfs_inv g s t d es Q h D \<longleftrightarrow>
     h \<le> length Q \<and>
     map clear_entity es = map clear_entity (heap g) \<and>
     distinct Q \<and>
     (\<forall>v. v \<in> set Q \<longleftrightarrow> v < length es \<and> visited (es ! v)) \<and>
     Q \<noteq> [] \<and> Q ! 0 = s \<and> d s = 0 \<and> prev (es ! s) = None \<and>
     (\<forall>i. 0 < i \<and> i < length Q \<longrightarrow>
        (\<exists>j. j < i \<and> j \<le> h \<and> prev (es ! (Q ! i)) = Some (Q ! j) \<and> edge g (Q ! j) (Q ! i) \<and>
             d (Q ! i) = Suc (d (Q ! j)))) \<and>
     sorted (map d Q) \<and>
     (h < length Q \<longrightarrow> d (last Q) \<le> Suc (d (Q ! h))) \<and>
     (\<forall>i < h. \<forall>v. edge g (Q ! i) v \<longrightarrow> v \<in> set Q \<and> d v \<le> Suc (d (Q ! i))) \<and>
     (h < length Q \<longrightarrow> (\<forall>v \<in> D. v \<in> set Q \<and> d v \<le> Suc (d (Q ! h)))) \<and>
     (\<forall>i < h. Q ! i \<noteq> t)"

lemma bfs_inv_enqueue:
  assumes inv: "bfs_inv g s t d es Q h D"
    and h: "h < length Q" and v: "v < length es" and nv: "\<not> visited (es ! v)"
    and e: "edge g (Q ! h) v"
  shows "bfs_inv g s t (d(v := Suc (d (Q ! h))))
           (es[v := (es ! v)\<lparr>visited := True, prev := Some (Q ! h)\<rparr>]) (Q @ [v]) h (insert v D)"
proof -
  let ?d = "d(v := Suc (d (Q ! h)))"
  let ?es = "es[v := (es ! v)\<lparr>visited := True, prev := Some (Q ! h)\<rparr>]"
  let ?Q = "Q @ [v]"
  note i = inv[unfolded bfs_inv_def]
  have i2: "map clear_entity es = map clear_entity (heap g)" using i by blast
  have i3: "distinct Q" using i by blast
  have i4: "\<And>w. w \<in> set Q \<longleftrightarrow> w < length es \<and> visited (es ! w)" using i by blast
  have i5: "Q \<noteq> []" "Q ! 0 = s" "d s = 0" "prev (es ! s) = None" using i by blast+
  have i7: "sorted (map d Q)" using i by blast
  have i11: "\<And>k. k < h \<Longrightarrow> Q ! k \<noteq> t" using i by blast
  have vQ: "v \<notin> set Q" using i4 nv by blast
  have dq: "\<And>x. x \<in> set Q \<Longrightarrow> ?d x = d x" using vQ by auto
  have eq: "\<And>x. x \<noteq> v \<Longrightarrow> ?es ! x = es ! x" by simp
  have nth: "\<And>k. k < length Q \<Longrightarrow> ?Q ! k = Q ! k" by (simp add: nth_append)
  have inQ: "\<And>k. k < length Q \<Longrightarrow> Q ! k \<in> set Q" by simp
  have ne: "\<And>k. k < length Q \<Longrightarrow> Q ! k \<noteq> v" using vQ inQ by metis
  have sQ: "s \<in> set Q" using i5 by (metis length_greater_0_conv nth_mem)
  have c1: "h \<le> length ?Q" using h by simp
  have "map clear_entity ?es = map clear_entity es"
    using v by (simp add: map_update list_update_same_conv)
  then have c2: "map clear_entity ?es = map clear_entity (heap g)" using i2 by simp
  have c3: "distinct ?Q" using i3 vQ by simp
  have c4: "\<forall>w. w \<in> set ?Q \<longleftrightarrow> w < length ?es \<and> visited (?es ! w)"
  proof
    fix w show "w \<in> set ?Q \<longleftrightarrow> w < length ?es \<and> visited (?es ! w)"
      using i4[of w] v by (cases "w = v") auto
  qed
  have c5: "?Q \<noteq> [] \<and> ?Q ! 0 = s \<and> ?d s = 0 \<and> prev (?es ! s) = None"
    using i5 sQ vQ by (auto simp: nth_append)
  have c6: "\<forall>k. 0 < k \<and> k < length ?Q \<longrightarrow>
        (\<exists>j. j < k \<and> j \<le> h \<and> prev (?es ! (?Q ! k)) = Some (?Q ! j) \<and> edge g (?Q ! j) (?Q ! k) \<and>
             ?d (?Q ! k) = Suc (?d (?Q ! j)))"
  proof (intro allI impI)
    fix k assume k: "0 < k \<and> k < length ?Q"
    show "\<exists>j. j < k \<and> j \<le> h \<and> prev (?es ! (?Q ! k)) = Some (?Q ! j) \<and> edge g (?Q ! j) (?Q ! k) \<and>
             ?d (?Q ! k) = Suc (?d (?Q ! j))"
    proof (cases "k < length Q")
      case True
      then obtain j where j: "j < k" "j \<le> h" "prev (es ! (Q ! k)) = Some (Q ! j)"
        "edge g (Q ! j) (Q ! k)" "d (Q ! k) = Suc (d (Q ! j))"
        using i k by blast
      have jl: "j < length Q" using j(1) True by simp
      show ?thesis
        using j nth[OF True] nth[OF jl] ne[OF True] ne[OF jl] by (intro exI[of _ j]) simp
    next
      case False
      then have kl: "k = length Q" using k by simp
      have "h < k" using h kl by simp
      moreover have "prev (?es ! (?Q ! k)) = Some (?Q ! h)" using kl v nth[OF h] by simp
      moreover have "edge g (?Q ! h) (?Q ! k)" using e kl nth[OF h] by simp
      moreover have "?d (?Q ! k) = Suc (?d (?Q ! h))" using kl nth[OF h] ne[OF h] by simp
      ultimately show ?thesis by (intro exI[of _ h]) simp
    qed
  qed
  have le: "\<And>x. x \<in> set Q \<Longrightarrow> d x \<le> Suc (d (Q ! h))"
  proof -
    fix x assume x: "x \<in> set Q"
    then obtain k where k: "k < length Q" "Q ! k = x" by (metis in_set_conv_nth)
    have "d (Q ! k) \<le> d (Q ! (length Q - 1))"
      using i7 k sorted_nth_mono[of "map d Q" k "length Q - 1"] by auto
    also have "\<dots> = d (last Q)" using i5 by (simp add: last_conv_nth)
    also have "\<dots> \<le> Suc (d (Q ! h))" using i h by blast
    finally show "d x \<le> Suc (d (Q ! h))" using k by simp
  qed
  have m: "map ?d Q = map d Q" using dq by (intro map_cong) auto
  have c7: "sorted (map ?d ?Q)"
    using i7 le by (simp add: m sorted_append)
  have c8: "h < length ?Q \<longrightarrow> ?d (last ?Q) \<le> Suc (?d (?Q ! h))"
    using nth[OF h] ne[OF h] by simp
  have c9: "\<forall>k < h. \<forall>w. edge g (?Q ! k) w \<longrightarrow> w \<in> set ?Q \<and> ?d w \<le> Suc (?d (?Q ! k))"
  proof (intro allI impI)
    fix k w assume k: "k < h" and ed: "edge g (?Q ! k) w"
    have kl: "k < length Q" using k h by simp
    have "edge g (Q ! k) w" using ed nth[OF kl] by simp
    then have "w \<in> set Q \<and> d w \<le> Suc (d (Q ! k))" using i k by blast
    then show "w \<in> set ?Q \<and> ?d w \<le> Suc (?d (?Q ! k))"
      using nth[OF kl] dq inQ[OF kl] by auto
  qed
  have c10: "h < length ?Q \<longrightarrow> (\<forall>w \<in> insert v D. w \<in> set ?Q \<and> ?d w \<le> Suc (?d (?Q ! h)))"
  proof (intro impI ballI)
    fix w assume "w \<in> insert v D"
    then consider "w = v" | "w \<in> D" "w \<noteq> v" by auto
    then show "w \<in> set ?Q \<and> ?d w \<le> Suc (?d (?Q ! h))"
    proof cases
      case 1
      then show ?thesis using nth[OF h] ne[OF h] by simp
    next
      case 2
      then have "w \<in> set Q \<and> d w \<le> Suc (d (Q ! h))" using i h by blast
      then show ?thesis using 2 nth[OF h] ne[OF h] by simp
    qed
  qed
  have c11: "\<forall>k < h. ?Q ! k \<noteq> t" using i11 h by (simp add: nth_append)
  show ?thesis
    unfolding bfs_inv_def using c1 c2 c3 c4 c5 c6 c7 c8 c9 c10 c11 by blast
qed

lemma bfs_inv_bound:
  assumes inv: "bfs_inv g s t d es Q h D" and h: "h < length Q" and x: "x \<in> set Q"
  shows "d x \<le> Suc (d (Q ! h))"
proof -
  note i = inv[unfolded bfs_inv_def]
  have i5: "Q \<noteq> []" using i by blast
  have i7: "sorted (map d Q)" using i by blast
  obtain k where k: "k < length Q" "Q ! k = x" using x by (metis in_set_conv_nth)
  have "d (Q ! k) \<le> d (Q ! (length Q - 1))"
    using i7 k sorted_nth_mono[of "map d Q" k "length Q - 1"] by auto
  also have "\<dots> = d (last Q)" using i5 by (simp add: last_conv_nth)
  also have "\<dots> \<le> Suc (d (Q ! h))" using i h by blast
  finally show ?thesis using k by simp
qed

lemma bfs_inv_seen:
  assumes inv: "bfs_inv g s t d es Q h D"
    and h: "h < length Q" and v: "v < length es" and vis: "visited (es ! v)"
  shows "bfs_inv g s t d es Q h (insert v D)"
proof -
  note i = inv[unfolded bfs_inv_def]
  have "v \<in> set Q" using i v vis by blast
  then have "v \<in> set Q \<and> d v \<le> Suc (d (Q ! h))"
    using bfs_inv_bound[OF inv h] by simp
  moreover have "h < length Q \<longrightarrow> (\<forall>w \<in> D. w \<in> set Q \<and> d w \<le> Suc (d (Q ! h)))"
    using i by blast
  ultimately have "h < length Q \<longrightarrow> (\<forall>w \<in> insert v D. w \<in> set Q \<and> d w \<le> Suc (d (Q ! h)))"
    by blast
  then show ?thesis using i unfolding bfs_inv_def by blast
qed

lemma bfs_inv_next:
  assumes inv: "bfs_inv g s t d es Q h D"
    and h: "h < length Q" and nt: "Q ! h \<noteq> t"
    and all: "\<And>v. edge g (Q ! h) v \<Longrightarrow> v \<in> D"
  shows "bfs_inv g s t d es Q (Suc h) {}"
proof -
  note i = inv[unfolded bfs_inv_def]
  have i5: "Q \<noteq> []" using i by blast
  have i7: "sorted (map d Q)" using i by blast
  have c6: "\<forall>k. 0 < k \<and> k < length Q \<longrightarrow>
        (\<exists>j. j < k \<and> j \<le> Suc h \<and> prev (es ! (Q ! k)) = Some (Q ! j) \<and> edge g (Q ! j) (Q ! k) \<and>
             d (Q ! k) = Suc (d (Q ! j)))"
  proof (intro allI impI)
    fix k assume "0 < k \<and> k < length Q"
    then obtain j where "j < k" "j \<le> h" "prev (es ! (Q ! k)) = Some (Q ! j)"
        "edge g (Q ! j) (Q ! k)" "d (Q ! k) = Suc (d (Q ! j))"
      using i by blast
    then show "\<exists>j. j < k \<and> j \<le> Suc h \<and> prev (es ! (Q ! k)) = Some (Q ! j) \<and>
        edge g (Q ! j) (Q ! k) \<and> d (Q ! k) = Suc (d (Q ! j))"
      by (intro exI[of _ j]) simp
  qed
  have c8: "Suc h < length Q \<longrightarrow> d (last Q) \<le> Suc (d (Q ! Suc h))"
  proof
    assume sh: "Suc h < length Q"
    have "d (last Q) \<le> Suc (d (Q ! h))" using i h by blast
    moreover have "d (Q ! h) \<le> d (Q ! Suc h)"
      using i7 sh sorted_nth_mono[of "map d Q" h "Suc h"] by auto
    ultimately show "d (last Q) \<le> Suc (d (Q ! Suc h))" by simp
  qed
  have c9: "\<forall>k < Suc h. \<forall>v. edge g (Q ! k) v \<longrightarrow> v \<in> set Q \<and> d v \<le> Suc (d (Q ! k))"
  proof (intro allI impI)
    fix k v assume k: "k < Suc h" and e: "edge g (Q ! k) v"
    show "v \<in> set Q \<and> d v \<le> Suc (d (Q ! k))"
    proof (cases "k = h")
      case True
      then have "v \<in> D" using all e by simp
      then show ?thesis using i h True by blast
    next
      case False
      then have "k < h" using k by simp
      then show ?thesis using i e by blast
    qed
  qed
  have c11: "\<forall>k < Suc h. Q ! k \<noteq> t"
  proof (intro allI impI)
    fix k assume "k < Suc h"
    then show "Q ! k \<noteq> t" using i nt by (cases "k = h") auto
  qed
  have c1: "Suc h \<le> length Q" using h by simp
  show ?thesis
    unfolding bfs_inv_def using c1 c6 c8 c9 c11 i by blast
qed

lemma bfs_inv_start:
  assumes "wf_graph g" "s < length (heap g)"
  shows "bfs_inv g s t (\<lambda>v. 0) (start_marks g s) [s] 0 {}"
proof -
  have m: "heap (reset_bfs_marks g) = map clear_entity (heap g)"
    using reset_bfs_marks_clears[OF assms(1)] by (simp add: clear_marks_def)
  let ?es = "start_marks g s"
  have es: "?es = (map clear_entity (heap g))[s := clear_entity (heap g ! s)\<lparr>visited := True\<rparr>]"
    using assms(2) by (simp add: start_marks_def m)
  have len: "length ?es = length (heap g)" by (simp add: es)
  have "map clear_entity ?es = map clear_entity (map clear_entity (heap g))"
    unfolding start_marks_def m by (rule map_clear_update)
  then have c2: "map clear_entity ?es = map clear_entity (heap g)" by simp
  have c4: "\<forall>v. v \<in> set [s] \<longleftrightarrow> v < length ?es \<and> visited (?es ! v)"
  proof
    fix v show "v \<in> set [s] \<longleftrightarrow> v < length ?es \<and> visited (?es ! v)"
      using assms(2) unfolding es by (cases "v = s") auto
  qed
  have c5: "prev (?es ! s) = None" unfolding es using assms(2) by simp
  show ?thesis unfolding bfs_inv_def using c2 c4 c5 by auto
qed

text \<open>The scan of the relations of the entity at the head keeps the invariant.\<close>

lemma scan_relations_inv:
  assumes "bfs_inv g s t d es Q h D" "h < length Q"
    and "\<forall>r \<in> set rs. edge g (Q ! h) (target r)"
    and "scan_relations cap (Q ! h) rs es Q = Inr (es', Q')"
  shows "\<exists>d'. bfs_inv g s t d' es' Q' h (D \<union> target ` set rs) \<and>
              h < length Q' \<and> Q' ! h = Q ! h \<and> length es' = length es"
  using assms
proof (induction rs arbitrary: d es Q D)
  case Nil
  then show ?case by auto
next
  case (Cons r rs)
  let ?v = "target r"
  have inb: "?v < length es" using Cons.prems(4) by (auto simp: Let_def split: if_splits)
  have e: "edge g (Q ! h) ?v" using Cons.prems(3) by simp
  have rest: "\<forall>r \<in> set rs. edge g (Q ! h) (target r)" using Cons.prems(3) by simp
  show ?case
  proof (cases "visited (es ! ?v)")
    case True
    have i: "bfs_inv g s t d es Q h (insert ?v D)"
      using Cons.prems(1,2) inb True by (rule bfs_inv_seen)
    have sc: "scan_relations cap (Q ! h) rs es Q = Inr (es', Q')"
      using Cons.prems(4) inb True by simp
    from Cons.IH[OF i Cons.prems(2) rest sc] show ?thesis by simp
  next
    case False
    let ?d = "d(?v := Suc (d (Q ! h)))"
    let ?es = "es[?v := (es ! ?v)\<lparr>visited := True, prev := Some (Q ! h)\<rparr>]"
    have i: "bfs_inv g s t ?d ?es (Q @ [?v]) h (insert ?v D)"
      using Cons.prems(1,2) inb False e by (rule bfs_inv_enqueue)
    have h': "h < length (Q @ [?v])" using Cons.prems(2) by simp
    have q: "(Q @ [?v]) ! h = Q ! h" using Cons.prems(2) by (simp add: nth_append)
    have sc: "scan_relations cap ((Q @ [?v]) ! h) rs ?es (Q @ [?v]) = Inr (es', Q')"
      using Cons.prems(4) inb False unfolding q by (auto simp: Let_def split: if_splits)
    have rest': "\<forall>r \<in> set rs. edge g ((Q @ [?v]) ! h) (target r)" using rest q by simp
    from Cons.IH[OF i h' rest' sc] q show ?thesis by auto
  qed
qed

lemma same_structure_nth:
  assumes "map clear_entity es = map clear_entity (heap g)" "u < length (heap g)"
  shows "relations (es ! u) = relations (heap g ! u)" "name (es ! u) = name (heap g ! u)"
proof -
  have l: "length es = length (heap g)" using assms(1) by (metis length_map)
  have "map clear_entity es ! u = map clear_entity (heap g) ! u" using assms(1) by simp
  then have e: "clear_entity (es ! u) = clear_entity (heap g ! u)" using assms(2) l by simp
  show "relations (es ! u) = relations (heap g ! u)" using e by (metis clear_entity_simps(2))
  show "name (es ! u) = name (heap g ! u)" using e by (metis clear_entity_simps(1))
qed

lemma bfs_inv_lengths:
  assumes "bfs_inv g s t d es Q h D"
  shows "length es = length (heap g)" "\<And>k. k < length Q \<Longrightarrow> Q ! k < length (heap g)"
proof -
  note i = assms[unfolded bfs_inv_def]
  have "map clear_entity es = map clear_entity (heap g)" using i by blast
  then show l: "length es = length (heap g)" by (metis length_map)
  fix k assume "k < length Q"
  then have "Q ! k \<in> set Q" by simp
  then have "Q ! k < length es" using i by blast
  then show "Q ! k < length (heap g)" using l by simp
qed

lemma bfs_loop_inv:
  assumes "bfs_inv g s t d es Q h {}" "bfs_loop t es Q h cap = Inr (found, es')"
  shows "\<exists>d' Q' h'. bfs_inv g s t d' es' Q' h' {} \<and>
           (if found then h' < length Q' \<and> Q' ! h' = t else h' = length Q')"
  using assms
proof (induction t es Q h cap arbitrary: d rule: bfs_loop.induct)
  case (1 tgt es Q h cap)
  have hl: "h \<le> length Q" using "1.prems"(1) unfolding bfs_inv_def by blast
  show ?case
  proof (cases "h < length Q")
    case False
    then have "found = False" "es' = es"
      using "1.prems"(2) by (subst (asm) bfs_loop.simps, simp)+
    moreover have "h = length Q" using False hl by simp
    ultimately show ?thesis using "1.prems"(1) by auto
  next
    case True
    note lt = this
    let ?cap = "if length Q \<ge> cap then cap * 2 else cap"
    show ?thesis
    proof (cases "Q ! h = tgt")
      case True
      then have "found = True" "es' = es"
        using lt "1.prems"(2) by (subst (asm) bfs_loop.simps, simp add: Let_def)+
      then show ?thesis using "1.prems"(1) lt True by auto
    next
      case False
      note ne = this
      show ?thesis
      proof (cases "scan_relations ?cap (Q ! h) (relations (es ! (Q ! h))) es Q")
        case (Inl f)
        with lt ne "1.prems"(2) show ?thesis
          by (subst (asm) bfs_loop.simps) (simp add: Let_def)
      next
        case (Inr pr)
        obtain es1 Q1 where pr: "pr = (es1, Q1)" by (cases pr)
        note sc = Inr[unfolded pr]
        have rec: "bfs_loop tgt es1 Q1 (h + 1) ?cap = Inr (found, es')"
          using lt ne Inr pr "1.prems"(2) by (subst (asm) bfs_loop.simps) (simp add: Let_def)
        have cur: "Q ! h < length (heap g)" using bfs_inv_lengths(2)[OF "1.prems"(1) lt] .
        have st: "map clear_entity es = map clear_entity (heap g)"
          using "1.prems"(1) unfolding bfs_inv_def by blast
        have rl: "relations (es ! (Q ! h)) = relations (heap g ! (Q ! h))"
          using same_structure_nth(1)[OF st cur] .
        have ed: "\<forall>r \<in> set (relations (es ! (Q ! h))). edge g (Q ! h) (target r)"
          unfolding rl edge_def using cur by blast
        obtain d1 where d1: "bfs_inv g s tgt d1 es1 Q1 h ({} \<union> target ` set (relations (es ! (Q ! h))))"
          and h1: "h < length Q1" and q1: "Q1 ! h = Q ! h"
          using scan_relations_inv[OF "1.prems"(1) lt ed sc] by blast
        have all: "\<And>v. edge g (Q1 ! h) v \<Longrightarrow> v \<in> {} \<union> target ` set (relations (es ! (Q ! h)))"
          unfolding q1 rl edge_def by auto
        have nx: "bfs_inv g s tgt d1 es1 Q1 (Suc h) {}"
          using d1 h1 _ all by (rule bfs_inv_next) (simp add: q1 ne)
        show ?thesis
          using "1.IH"[OF lt refl refl ne sc refl, of d1] nx rec by simp
      qed
    qed
  qed
qed

text \<open>A path is a list of entities, each joined to the next by an edge.\<close>

fun is_path :: "graph \<Rightarrow> nat list \<Rightarrow> bool" where
  "is_path g [] = False"
| "is_path g [v] = True"
| "is_path g (u # v # p) = (edge g u v \<and> is_path g (v # p))"

text \<open>A path from \<open>s\<close> to \<open>t\<close> such that no path from \<open>s\<close> to \<open>t\<close> has fewer entities.\<close>

definition shortest_path :: "graph \<Rightarrow> nat \<Rightarrow> nat \<Rightarrow> nat list \<Rightarrow> bool" where
  "shortest_path g s t p \<longleftrightarrow>
     is_path g p \<and> hd p = s \<and> last p = t \<and>
     (\<forall>q. is_path g q \<and> hd q = s \<and> last q = t \<longrightarrow> length p \<le> length q)"

lemma is_path_snoc_iff:
  "p \<noteq> [] \<Longrightarrow> is_path g (p @ [v]) \<longleftrightarrow> is_path g p \<and> edge g (last p) v"
proof (induction g p rule: is_path.induct)
  case (1 g)
  then show ?case by simp
next
  case (2 g v)
  then show ?case by simp
next
  case (3 g u w p)
  then show ?case by auto
qed

lemma is_path_hops:
  "is_path g q \<Longrightarrow> hops g (hd q) (length q - 1) (last q)"
proof (induction q rule: rev_induct)
  case Nil
  then show ?case by simp
next
  case (snoc v q)
  show ?case
  proof (cases "q = []")
    case True
    then show ?thesis by (simp add: hops.start)
  next
    case False
    then have p: "is_path g q" and e: "edge g (last q) v"
      using snoc.prems is_path_snoc_iff[OF False] by simp_all
    have "hops g (hd q) (length q - 1) (last q)" using snoc.IH p by simp
    then have "hops g (hd q) (Suc (length q - 1)) v" using e by (rule hops.step)
    then show ?thesis using False by simp
  qed
qed

lemma bfs_inv_depth:
  assumes inv: "bfs_inv g s t d es Q h D"
  shows "i < length Q \<Longrightarrow> d (Q ! i) \<le> i"
proof (induction i rule: less_induct)
  case (less i)
  note iv = inv[unfolded bfs_inv_def]
  show ?case
  proof (cases "i = 0")
    case True
    then show ?thesis using iv by simp
  next
    case False
    then obtain j where j: "j < i" "d (Q ! i) = Suc (d (Q ! j))" using iv less.prems by blast
    then have "d (Q ! j) \<le> j" using less.IH less.prems by simp
    then show ?thesis using j by simp
  qed
qed

text \<open>
  Following \<open>prev\<close> from a queued entity gives, in reverse, a path from the source with
  as many edges as the entity has hops, unless the stack is too small for it.
\<close>

lemma walk_prev_chain:
  assumes inv: "bfs_inv g s t d es Q h D"
  shows "i < length Q \<Longrightarrow>
     \<exists>p. (\<forall>k acc. walk_prev es k (Some (Q ! i)) acc
                   = (if d (Q ! i) < k then Inr (acc @ p) else Inl PathStackOverflow)) \<and>
         is_path g (rev p) \<and> hd (rev p) = s \<and> last (rev p) = Q ! i \<and>
         length p = Suc (d (Q ! i)) \<and> set p \<subseteq> set Q"
proof (induction i rule: less_induct)
  case (less i)
  note iv = inv[unfolded bfs_inv_def]
  have i5: "Q ! 0 = s" "d s = 0" "prev (es ! s) = None" using iv by blast+
  show ?case
  proof (cases "i = 0")
    case True
    have w: "\<forall>k acc. walk_prev es k (Some (Q ! i)) acc
                   = (if d (Q ! i) < k then Inr (acc @ [s]) else Inl PathStackOverflow)"
    proof (intro allI)
      fix k acc
      show "walk_prev es k (Some (Q ! i)) acc
                   = (if d (Q ! i) < k then Inr (acc @ [s]) else Inl PathStackOverflow)"
        using True i5 by (cases k) simp_all
    qed
    have "s \<in> set Q" using i5(1) less.prems True by (metis nth_mem)
    then show ?thesis
      using w True i5 less.prems by (intro exI[of _ "[s]"]) simp
  next
    case False
    then obtain j where j: "j < i" "prev (es ! (Q ! i)) = Some (Q ! j)"
      "edge g (Q ! j) (Q ! i)" "d (Q ! i) = Suc (d (Q ! j))"
      using iv less.prems by blast
    have jl: "j < length Q" using j(1) less.prems by simp
    obtain p where p: "\<forall>k acc. walk_prev es k (Some (Q ! j)) acc
                   = (if d (Q ! j) < k then Inr (acc @ p) else Inl PathStackOverflow)"
      and pp: "is_path g (rev p)" "hd (rev p) = s" "last (rev p) = Q ! j"
        "length p = Suc (d (Q ! j))" "set p \<subseteq> set Q"
      using less.IH[OF j(1) jl] by blast
    let ?p = "Q ! i # p"
    have pne: "rev p \<noteq> []" using pp(4) by auto
    have w: "\<forall>k acc. walk_prev es k (Some (Q ! i)) acc
                   = (if d (Q ! i) < k then Inr (acc @ ?p) else Inl PathStackOverflow)"
    proof (intro allI)
      fix k acc
      show "walk_prev es k (Some (Q ! i)) acc
                   = (if d (Q ! i) < k then Inr (acc @ ?p) else Inl PathStackOverflow)"
      proof (cases k)
        case 0
        then show ?thesis by simp
      next
        case (Suc k')
        then show ?thesis using j(2,4) p by simp
      qed
    qed
    have "is_path g (rev p @ [Q ! i])"
      using is_path_snoc_iff[OF pne, of g "Q ! i"] pp(1,3) j(3) by simp
    moreover have "hd (rev p @ [Q ! i]) = s" using pne pp(2) by simp
    moreover have "set ?p \<subseteq> set Q" using pp(5) less.prems by simp
    ultimately show ?thesis
      using w pp(4) j(4) by (intro exI[of _ ?p]) simp
  qed
qed

text \<open>An entity that \<open>k\<close> edges reach is queued with at most \<open>k\<close> hops, unless an entity with
  fewer hops still waits in the queue.\<close>

lemma hops_bound:
  assumes inv: "bfs_inv g s t d es Q h D"
  shows "hops g s k v \<Longrightarrow>
     (v \<in> set Q \<and> d v \<le> k) \<or> (\<exists>i. h \<le> i \<and> i < length Q \<and> d (Q ! i) < k)"
proof (induction rule: hops.induct)
  case start
  note iv = inv[unfolded bfs_inv_def]
  have "s \<in> set Q" using iv by (metis length_greater_0_conv nth_mem)
  then show ?case using iv by simp
next
  case (step k u v)
  note iv = inv[unfolded bfs_inv_def]
  show ?case
  proof (cases "\<exists>i. h \<le> i \<and> i < length Q \<and> d (Q ! i) < k")
    case True
    then obtain i where "h \<le> i" "i < length Q" "d (Q ! i) < k" by blast
    then have "h \<le> i \<and> i < length Q \<and> d (Q ! i) < Suc k" by simp
    then show ?thesis by blast
  next
    case False
    then have u: "u \<in> set Q" "d u \<le> k" using step.IH by blast+
    then obtain i where i: "i < length Q" "Q ! i = u" by (metis in_set_conv_nth)
    show ?thesis
    proof (cases "i < h")
      case True
      then have "v \<in> set Q \<and> d v \<le> Suc (d (Q ! i))" using iv step.hyps(2) i(2) by blast
      then show ?thesis using u(2) i(2) by auto
    next
      case False
      then have "h \<le> i \<and> i < length Q \<and> d (Q ! i) < Suc k" using i u(2) by simp
      then show ?thesis by blast
    qed
  qed
qed

lemma fuzzy_pick_in_list:
  assumes "fuzzy_pick_from_suggestions g list con = Inr (Some e, c)"
  shows "e \<in> set list"
proof -
  have r: "\<And>choice. 1 \<le> choice \<Longrightarrow> choice \<le> int (length list) \<Longrightarrow> list ! nat (choice - 1) \<in> set list"
    by (intro nth_mem) auto
  show ?thesis
    using assms r unfolding fuzzy_pick_from_suggestions_def Let_def
    by (auto split: if_splits prod.splits option.splits simp: length_Suc_conv)
qed

lemma search_entity_smart_in_index:
  assumes "search_entity_smart g inp con = Inr (Some e, c)"
  shows "e \<in> set (all_entities g)"
proof -
  let ?key = "normalize_key inp"
  let ?pre = "collect (prefix_match g ?key) (all_entities g) []"
  let ?sub = "collect (\<lambda>p. ci_contains (name (heap g ! p)) ?key) (all_entities g) ?pre"
  have s1: "set ?pre \<subseteq> set (all_entities g)"
    using collect_subset[of "prefix_match g ?key" "all_entities g" "[]"] by simp
  have s2: "set ?sub \<subseteq> set (all_entities g)"
    using collect_subset[of _ "all_entities g" ?pre] s1 by blast
  show ?thesis
  proof (cases "find (\<lambda>p. ci_cmp (name (heap g ! p)) ?key = 0) (all_entities g)")
    case (Some x)
    then have "x \<in> set (all_entities g)" by (auto simp: find_Some_iff)
    moreover have "e = x"
      using assms Some by (auto simp: search_entity_smart_def Let_def split: if_splits)
    ultimately show ?thesis by simp
  next
    case None
    then have "fuzzy_pick_from_suggestions g (if length ?pre = 0 then ?sub else ?pre) con
                 = Inr (Some e, c)"
      using assms by (auto simp: search_entity_smart_def Let_def split: if_splits)
    from fuzzy_pick_in_list[OF this] s1 s2 show ?thesis by (auto split: if_splits)
  qed
qed

lemma resolve_in_index:
  assumes "resolve g inp fz con = Inr (Some e, c)"
  shows "e \<in> set (all_entities g)"
proof (cases fz)
  case True
  with assms show ?thesis by (simp add: resolve_def search_entity_smart_in_index)
next
  case False
  with assms have "find_entity_exact g inp = Some e" by (simp add: resolve_def)
  then show ?thesis by (rule find_entity_exact_SomeD(1))
qed

lemma resolve_allocated:
  assumes "wf_graph g" "resolve g inp fz con = Inr (Some e, c)"
  shows "e < length (heap g)"
  using resolve_in_index[OF assms(2)] assms(1) by (simp add: wf_graph_def)

text \<open>
  If the search comes to an end (it meets no fault), it reports a shortest path when it
  reports a path, and it reports that there is no path only when there is none.
\<close>

lemma find_path_bfs_shortest:
  assumes "wf_graph g"
    and "resolve g a fz con = Inr (Some s, con1)"
    and "resolve g b fz con1 = Inr (Some t, con2)"
    and "find_path_bfs g a b fz con = Inr (res, g', c)"
  shows "(\<exists>p. res = PathFound (map (\<lambda>v. name (heap g ! v)) p) \<and> shortest_path g s t p) \<or>
         (res = PathNotFound (name (heap g ! s)) (name (heap g ! t)) \<and>
          (\<forall>q. \<not> (is_path g q \<and> hd q = s \<and> last q = t)))"
proof -
  have sl: "s < length (heap g)" using assms(1,2) by (rule resolve_allocated)
  have tl: "t < length (heap g)" using assms(1,3) by (rule resolve_allocated)
  have st: "bfs_inv g s t (\<lambda>v. 0) (start_marks g s) [s] 0 {}"
    using assms(1) sl by (rule bfs_inv_start)
  note r = find_path_bfs_resolved[OF assms(2,3)]
  obtain found es2 where b: "bfs_loop t (start_marks g s) [s] 0 QUEUE_INIT = Inr (found, es2)"
    using assms(4) unfolding r by (auto split: sum.splits)
  obtain d Q h where inv: "bfs_inv g s t d es2 Q h {}"
    and fin: "if found then h < length Q \<and> Q ! h = t else h = length Q"
    using bfs_loop_inv[OF st b] by blast
  note iv = inv[unfolded bfs_inv_def]
  have str: "map clear_entity es2 = map clear_entity (heap g)" using iv by blast
  have srt: "sorted (map d Q)" using iv by blast
  show ?thesis
  proof (cases found)
    case True
    then have h: "h < length Q" "Q ! h = t" using fin by simp_all
    obtain p where w: "\<forall>k acc. walk_prev es2 k (Some (Q ! h)) acc
                   = (if d (Q ! h) < k then Inr (acc @ p) else Inl PathStackOverflow)"
      and pp: "is_path g (rev p)" "hd (rev p) = s" "last (rev p) = Q ! h"
        "length p = Suc (d (Q ! h))" "set p \<subseteq> set Q"
      using walk_prev_chain[OF inv h(1)] by blast
    have wk: "walk_prev es2 PATH_STACK (Some t) [] = Inr p"
      using assms(4) w h(2) unfolding r b by (auto split: sum.splits if_splits simp: True)
    have res: "res = PathFound (map (\<lambda>v. name (es2 ! v)) (rev p))"
      using assms(4) unfolding r b by (simp add: True wk)
    have "map (\<lambda>v. name (es2 ! v)) (rev p) = map (\<lambda>v. name (heap g ! v)) (rev p)"
    proof (intro map_cong refl)
      fix v assume "v \<in> set (rev p)"
      then have "v \<in> set Q" using pp(5) by auto
      then obtain k where "k < length Q" "Q ! k = v" by (metis in_set_conv_nth)
      then have "v < length (heap g)" using bfs_inv_lengths(2)[OF inv] by blast
      then show "name (es2 ! v) = name (heap g ! v)" by (rule same_structure_nth(2)[OF str])
    qed
    then have res': "res = PathFound (map (\<lambda>v. name (heap g ! v)) (rev p))" using res by simp
    have min: "\<forall>q. is_path g q \<and> hd q = s \<and> last q = t \<longrightarrow> length (rev p) \<le> length q"
    proof (intro allI impI)
      fix q assume q: "is_path g q \<and> hd q = s \<and> last q = t"
      then have qne: "q \<noteq> []" by auto
      have "hops g s (length q - 1) t" using is_path_hops[of g q] q by simp
      then consider "t \<in> set Q \<and> d t \<le> length q - 1"
        | i where "h \<le> i" "i < length Q" "d (Q ! i) < length q - 1"
        using hops_bound[OF inv] by blast
      then have "d t \<le> length q - 1"
      proof cases
        case 1
        then show ?thesis by simp
      next
        case 2
        have "d (Q ! h) \<le> d (Q ! i)"
          using srt 2(1,2) sorted_nth_mono[of "map d Q" h i] by auto
        then show ?thesis using 2(3) h(2) by simp
      qed
      then show "length (rev p) \<le> length q" using pp(4) h(2) qne
        by (cases q) simp_all
    qed
    have "shortest_path g s t (rev p)"
      unfolding shortest_path_def using pp(1,2,3) h(2) min by simp
    then show ?thesis using res' by blast
  next
    case False
    then have h: "h = length Q" using fin by simp
    have res: "res = PathNotFound (name (es2 ! s)) (name (es2 ! t))"
      using assms(4) unfolding r b by (simp add: False)
    have nm: "name (es2 ! s) = name (heap g ! s)" "name (es2 ! t) = name (heap g ! t)"
      using same_structure_nth(2)[OF str sl] same_structure_nth(2)[OF str tl] by simp_all
    have tn: "t \<notin> set Q"
    proof
      assume "t \<in> set Q"
      then obtain k where "k < length Q" "Q ! k = t" by (metis in_set_conv_nth)
      then show False using iv h by blast
    qed
    have "\<forall>q. \<not> (is_path g q \<and> hd q = s \<and> last q = t)"
    proof (intro allI notI)
      fix q assume q: "is_path g q \<and> hd q = s \<and> last q = t"
      have "hops g s (length q - 1) t" using is_path_hops[of g q] q by simp
      then have "t \<in> set Q" using hops_bound[OF inv] h by fastforce
      then show False using tn by simp
    qed
    then show ?thesis using res nm by simp
  qed
qed

lemma bfs_inv_queue_length:
  assumes inv: "bfs_inv g s t d es Q h D"
  shows "length Q \<le> length es"
proof -
  note iv = inv[unfolded bfs_inv_def]
  have "distinct Q" using iv by blast
  then have "length Q = card (set Q)" by (simp add: distinct_card)
  moreover have "set Q \<subseteq> {..<length es}" using iv by blast
  then have "card (set Q) \<le> card {..<length es}" by (intro card_mono) simp_all
  ultimately show ?thesis by simp
qed

lemma edge_target_allocated:
  assumes "wf_graph g" "edge g u v"
  shows "v < length (heap g)"
  using assms by (auto simp: wf_graph_def edge_def)

lemma scan_relations_no_fault:
  assumes "bfs_inv g s t d es Q h D" "h < length Q"
    and "\<forall>r \<in> set rs. edge g (Q ! h) (target r)"
    and "wf_graph g" "length (heap g) \<le> cap"
  shows "\<exists>es' Q'. scan_relations cap (Q ! h) rs es Q = Inr (es', Q')"
  using assms(1,2,3)
proof (induction rs arbitrary: d es Q D)
  case Nil
  then show ?case by simp
next
  case (Cons r rs)
  let ?v = "target r"
  have e: "edge g (Q ! h) ?v" using Cons.prems(3) by simp
  have len: "length es = length (heap g)" using bfs_inv_lengths(1)[OF Cons.prems(1)] .
  have inb: "?v < length es" using edge_target_allocated[OF assms(4) e] len by simp
  have rest: "\<forall>r \<in> set rs. edge g (Q ! h) (target r)" using Cons.prems(3) by simp
  show ?case
  proof (cases "visited (es ! ?v)")
    case True
    have i: "bfs_inv g s t d es Q h (insert ?v D)"
      using Cons.prems(1,2) inb True by (rule bfs_inv_seen)
    from Cons.IH[OF i Cons.prems(2) rest] show ?thesis using inb True by simp
  next
    case False
    let ?d = "d(?v := Suc (d (Q ! h)))"
    let ?es = "es[?v := (es ! ?v)\<lparr>visited := True, prev := Some (Q ! h)\<rparr>]"
    have i: "bfs_inv g s t ?d ?es (Q @ [?v]) h (insert ?v D)"
      using Cons.prems(1,2) inb False e by (rule bfs_inv_enqueue)
    have "length (Q @ [?v]) \<le> length ?es" using i by (rule bfs_inv_queue_length)
    then have room: "\<not> length Q \<ge> cap" using len assms(5) by simp
    have h': "h < length (Q @ [?v])" using Cons.prems(2) by simp
    have q: "(Q @ [?v]) ! h = Q ! h" using Cons.prems(2) by (simp add: nth_append)
    have rest': "\<forall>r \<in> set rs. edge g ((Q @ [?v]) ! h) (target r)" using rest q by simp
    from Cons.IH[OF i h' rest'] show ?thesis using inb False room q by (simp add: Let_def)
  qed
qed

lemma bfs_loop_no_fault:
  assumes "bfs_inv g s t d es Q h {}" "wf_graph g" "length (heap g) \<le> cap"
  shows "\<exists>found es'. bfs_loop t es Q h cap = Inr (found, es')"
  using assms(1,3)
proof (induction t es Q h cap arbitrary: d rule: bfs_loop.induct)
  case (1 tgt es Q h cap)
  show ?case
  proof (cases "h < length Q")
    case False
    then have "bfs_loop tgt es Q h cap = Inr (False, es)" by (subst bfs_loop.simps) simp
    then show ?thesis by blast
  next
    case True
    note lt = this
    let ?cap = "if length Q \<ge> cap then cap * 2 else cap"
    have cap: "length (heap g) \<le> ?cap" using "1.prems"(2) by simp
    show ?thesis
    proof (cases "Q ! h = tgt")
      case True
      then have "bfs_loop tgt es Q h cap = Inr (True, es)"
        using lt by (subst bfs_loop.simps) (simp add: Let_def)
      then show ?thesis by blast
    next
      case False
      note ne = this
      have cur: "Q ! h < length (heap g)" using bfs_inv_lengths(2)[OF "1.prems"(1) lt] .
      have st: "map clear_entity es = map clear_entity (heap g)"
        using "1.prems"(1) unfolding bfs_inv_def by blast
      have rl: "relations (es ! (Q ! h)) = relations (heap g ! (Q ! h))"
        using same_structure_nth(1)[OF st cur] .
      have ed: "\<forall>r \<in> set (relations (es ! (Q ! h))). edge g (Q ! h) (target r)"
        unfolding rl edge_def using cur by blast
      obtain es1 Q1 where sc: "scan_relations ?cap (Q ! h) (relations (es ! (Q ! h))) es Q = Inr (es1, Q1)"
        using scan_relations_no_fault[OF "1.prems"(1) lt ed assms(2) cap] by blast
      obtain d1 where d1: "bfs_inv g s tgt d1 es1 Q1 h ({} \<union> target ` set (relations (es ! (Q ! h))))"
        and h1: "h < length Q1" and q1: "Q1 ! h = Q ! h"
        using scan_relations_inv[OF "1.prems"(1) lt ed sc] by blast
      have all: "\<And>v. edge g (Q1 ! h) v \<Longrightarrow> v \<in> {} \<union> target ` set (relations (es ! (Q ! h)))"
        unfolding q1 rl edge_def by auto
      have nx: "bfs_inv g s tgt d1 es1 Q1 (Suc h) {}"
        using d1 h1 _ all by (rule bfs_inv_next) (simp add: q1 ne)
      have "\<exists>found es'. bfs_loop tgt es1 Q1 (h + 1) ?cap = Inr (found, es')"
        using "1.IH"[OF lt refl refl ne sc refl, of d1] nx cap by simp
      then obtain found es' where "bfs_loop tgt es1 Q1 (h + 1) ?cap = Inr (found, es')"
        by blast
      then have "bfs_loop tgt es Q h cap = Inr (found, es')"
        using lt ne sc by (subst bfs_loop.simps) (simp add: Let_def)
      then show ?thesis by blast
    qed
  qed
qed

text \<open>
  In a graph of at most 128 entities the queue of 128 slots and the stack of 1024 slots
  are large enough: the search meets no fault.
\<close>

lemma find_path_bfs_small_graph:
  assumes "wf_graph g" "length (heap g) \<le> QUEUE_INIT"
    and "resolve g a fz con = Inr (Some s, con1)"
    and "resolve g b fz con1 = Inr (Some t, con2)"
  shows "\<exists>res g'. find_path_bfs g a b fz con = Inr (res, g', con2)"
proof -
  have sl: "s < length (heap g)" using assms(1,3) by (rule resolve_allocated)
  have st: "bfs_inv g s t (\<lambda>v. 0) (start_marks g s) [s] 0 {}"
    using assms(1) sl by (rule bfs_inv_start)
  note r = find_path_bfs_resolved[OF assms(3,4)]
  obtain found es2 where b: "bfs_loop t (start_marks g s) [s] 0 QUEUE_INIT = Inr (found, es2)"
    using bfs_loop_no_fault[OF st assms(1,2)] by blast
  obtain d Q h where inv: "bfs_inv g s t d es2 Q h {}"
    and fin: "if found then h < length Q \<and> Q ! h = t else h = length Q"
    using bfs_loop_inv[OF st b] by blast
  show ?thesis
  proof (cases found)
    case False
    then show ?thesis unfolding r b by simp
  next
    case True
    then have h: "h < length Q" "Q ! h = t" using fin by simp_all
    obtain p where w: "\<forall>k acc. walk_prev es2 k (Some (Q ! h)) acc
                   = (if d (Q ! h) < k then Inr (acc @ p) else Inl PathStackOverflow)"
      using walk_prev_chain[OF inv h(1)] by blast
    have "d (Q ! h) \<le> h" using bfs_inv_depth[OF inv h(1)] .
    also have "h < length Q" by (rule h(1))
    also have "length Q \<le> length es2" using inv by (rule bfs_inv_queue_length)
    also have "length es2 = length (heap g)" using bfs_inv_lengths(1)[OF inv] .
    also have "\<dots> \<le> QUEUE_INIT" by (rule assms(2))
    finally have "d (Q ! h) < PATH_STACK" by (simp add: QUEUE_INIT_def PATH_STACK_def)
    then have "walk_prev es2 PATH_STACK (Some t) [] = Inr p" using w h(2) by simp
    then show ?thesis unfolding r b by (simp add: True)
  qed
qed

text \<open>
  The claim C1 within the capacity of the queue: in a graph of at most 128 entities, when
  both names resolve and a path leads from the source to the target, \<open>find_path_bfs\<close>
  returns the names along a path with the fewest hops.
\<close>

lemma find_path_bfs_min_hops:
  assumes "wf_graph g" "length (heap g) \<le> QUEUE_INIT"
    and "resolve g a fz con = Inr (Some s, con1)"
    and "resolve g b fz con1 = Inr (Some t, con2)"
    and "is_path g q" "hd q = s" "last q = t"
  shows "\<exists>p g'. find_path_bfs g a b fz con
                    = Inr (PathFound (map (\<lambda>v. name (heap g ! v)) p), g', con2) \<and>
                 shortest_path g s t p"
proof -
  obtain res g' where f: "find_path_bfs g a b fz con = Inr (res, g', con2)"
    using find_path_bfs_small_graph[OF assms(1-4)] by blast
  from find_path_bfs_shortest[OF assms(1,3,4) f] assms(5-7)
  obtain p where "res = PathFound (map (\<lambda>v. name (heap g ! v)) p)" "shortest_path g s t p"
    by blast
  then show ?thesis using f by blast
qed

text \<open>
  The source is the target: the search ends at the first dequeue, whatever the size of
  the graph, and the path is the entity alone.
\<close>

lemma find_path_bfs_same_entity:
  assumes "wf_graph g"
    and "resolve g a fz con = Inr (Some s, con1)"
    and "resolve g b fz con1 = Inr (Some s, con2)"
  shows "find_path_bfs g a b fz con
           = Inr (PathFound [name (heap g ! s)],
                  (reset_bfs_marks g)\<lparr>heap := start_marks g s\<rparr>, con2)"
proof -
  have sl: "s < length (heap g)" using assms(1,2) by (rule resolve_allocated)
  have m: "heap (reset_bfs_marks g) = map clear_entity (heap g)"
    using reset_bfs_marks_clears[OF assms(1)] by (simp add: clear_marks_def)
  have b: "bfs_loop s (start_marks g s) [s] 0 QUEUE_INIT = Inr (True, start_marks g s)"
    by (subst bfs_loop.simps) (simp add: Let_def)
  have p: "prev (start_marks g s ! s) = None" "name (start_marks g s ! s) = name (heap g ! s)"
    using sl by (simp_all add: start_marks_def m)
  have "PATH_STACK = Suc (PATH_STACK - 1)" by (simp add: PATH_STACK_def)
  then have w: "walk_prev (start_marks g s) PATH_STACK (Some s) [] = Inr [s]"
    using p(1) by (metis append_Nil walk_prev.simps(1,3))
  show ?thesis
    unfolding find_path_bfs_resolved[OF assms(2,3)] b by (simp add: w p(2))
qed

text \<open>
  The example of the specification: Alice knows Bob, Bob knows Carol, Alice met Carol.
  The path from Alice to Carol is the direct edge.
\<close>

lemma find_path_bfs_example:
  "outcome (find_path_bfs example_graph ''Alice'' ''Carol'' False quiet)
     = Inr (PathFound [''Alice'', ''Carol''], quiet)"
  by code_simp

end
